theory Spec2Isabelle
  imports Main "HOL-Library.AList"
begin

section \<open>Data model of \<open>LayerUI.ts\<close>\<close>

text \<open>
  \<open>ViewParams\<close> objects and scene nodes are shared mutable objects: the same
  \<open>ViewParams\<close> is referenced from \<open>ui_nodes\<close>, from \<open>ui_cache\<close>, from the
  \<open>DelegateComponent\<close> of its node and from the closure of a running load. They live in
  two stores, addressed by references; allocation takes the next unused address.
\<close>

type_synonym ref = nat
type_synonym node_id = nat

text \<open>The opaque \<open>params\<close> and \<open>callbacks\<close> objects; \<open>x ?? {}\<close> yields the empty object
  when the caller passed nothing.\<close>

datatype payload = EmptyObject | Supplied nat

fun nullish :: "nat option \<Rightarrow> payload" where
  "nullish None = EmptyObject"
| "nullish (Some v) = Supplied v"

record ViewParams =
  uuid :: string
  prefabPath :: string
  params :: payload
  callbacks :: payload
  valid :: bool
  node :: "node_id option"

text \<open>Modelled from the spec: the class \<open>ViewParams\<close> is declared in \<open>Defines.ts\<close>;
  a new record has no visual (\<open>visual: absent until load completes\<close>). Every other field
  is assigned by \<open>add\<close> right after the construction.\<close>

definition new_ViewParams :: ViewParams where
  "new_ViewParams =
     \<lparr>uuid = [], prefabPath = [], params = EmptyObject, callbacks = EmptyObject,
      valid = True, node = None\<rparr>"

record DelegateComponent =
  viewParams :: "ref option"

text \<open>A scene node carries at most one \<open>DelegateComponent\<close>; the component is identified
  with the node that owns it, and \<open>isValid(comp)\<close> is \<open>\<not> destroyed\<close> of that node.\<close>

record SceneNode =
  component :: "DelegateComponent option"
  destroyed :: bool

record UIConfig =
  prefab :: string
  bundleName :: "string option"

datatype log_entry = LogWarn string | LogError string

datatype exn = TypeError | InstantiateError

text \<open>The layer (the two maps, its name and its children in the scene tree) together with
  the environment it acts on: the two object stores, the requests handed to
  \<open>oops.res.load\<close> whose callback has not run yet, and the logger's output.
  A JavaScript \<open>Map\<close> iterates in insertion order, so the two maps are association lists
  (\<open>AList.update\<close> overwrites in place or appends, \<open>AList.delete\<close> removes the key).\<close>

record LayerUI =
  name :: string
  ui_nodes :: "(string \<times> ref) list"
  ui_cache :: "(string \<times> ref) list"
  children :: "node_id list"
  heap :: "ref \<Rightarrow> ViewParams"
  next_ref :: ref
  scene :: "node_id \<Rightarrow> SceneNode"
  next_node :: node_id
  pending :: "(string \<times> string \<times> ref) list"
  logs :: "log_entry list"
  defaultBundleName :: string

definition init :: "string \<Rightarrow> string \<Rightarrow> LayerUI" where
  "init layerName dflt =
     \<lparr>name = layerName, ui_nodes = [], ui_cache = [], children = [],
      heap = (\<lambda>_. new_ViewParams), next_ref = 0,
      scene = (\<lambda>_. \<lparr>component = None, destroyed = False\<rparr>), next_node = 0,
      pending = [], logs = [], defaultBundleName = dflt\<rparr>"

section \<open>Operations\<close>

subsection \<open>\<open>getUuid\<close>\<close>

fun replace_slash :: "string \<Rightarrow> string" where
  "replace_slash [] = []"
| "replace_slash (c # cs) = (if c = CHR ''/'' then CHR ''_'' else c) # replace_slash cs"

definition getUuid :: "LayerUI \<Rightarrow> string \<Rightarrow> string" where
  "getUuid s prefabPath' = replace_slash (name s @ ''_'' @ prefabPath')"

subsection \<open>The \<open>DelegateComponent\<close> of a node\<close>

text \<open>Modelled from the spec: \<open>DelegateComponent.add()\<close> (\<open>DelegateComponent.ts\<close>)
  notifies the binding of the insertion; it changes nothing the layer keeps.\<close>

definition delegate_add :: "node_id \<Rightarrow> LayerUI \<Rightarrow> LayerUI" where
  "delegate_add n s = s"

text \<open>Modelled from the spec: \<open>DelegateComponent.remove(isDestroy)\<close>
  (\<open>DelegateComponent.ts\<close>) detaches the visual from the layer, and destroys it when
  \<open>isDestroy\<close> is set (\<open>detach-and-destroy\<close> against \<open>detach-only\<close>).\<close>

definition delegate_remove :: "node_id \<Rightarrow> bool \<Rightarrow> LayerUI \<Rightarrow> LayerUI" where
  "delegate_remove n isDestroy s =
     (let s1 = s\<lparr>children := removeAll n (children s)\<rparr>
      in if isDestroy then s1\<lparr>scene := (scene s1)(n := (scene s1 n)\<lparr>destroyed := True\<rparr>)\<rparr>
         else s1)"

text \<open>\<open>node.parent = this\<close>: a node that is not yet a child is appended.\<close>

definition set_parent :: "node_id \<Rightarrow> LayerUI \<Rightarrow> LayerUI" where
  "set_parent n s = (if n \<in> set (children s) then s else s\<lparr>children := children s @ [n]\<rparr>)"

definition comp_viewParams :: "LayerUI \<Rightarrow> node_id \<Rightarrow> ref option" where
  "comp_viewParams s n =
     (case component (scene s n) of None \<Rightarrow> None | Some dc \<Rightarrow> viewParams dc)"

subsection \<open>\<open>createNode\<close>, \<open>load\<close> and the load callback\<close>

definition createNode :: "ref \<Rightarrow> LayerUI \<Rightarrow> LayerUI \<times> (exn + node_id)" where
  "createNode vp s =
     (let s1 = s\<lparr>heap := (heap s)(vp := (heap s vp)\<lparr>valid := True\<rparr>)\<rparr>
      in case node (heap s1 vp) of
           None \<Rightarrow> (s1, Inl TypeError)
         | Some n \<Rightarrow>
             (case component (scene s1 n) of
                None \<Rightarrow> (s1, Inl TypeError)
              | Some dc \<Rightarrow> (set_parent n (delegate_add n s1), Inr n)))"

text \<open>\<open>bundle || oops.res.defaultBundleName\<close>: the empty string is falsy as well.\<close>

fun bundle_or_default :: "string option \<Rightarrow> string \<Rightarrow> string" where
  "bundle_or_default None dflt = dflt"
| "bundle_or_default (Some b) dflt = (if b = [] then dflt else b)"

definition load :: "ref \<Rightarrow> string option \<Rightarrow> LayerUI \<Rightarrow> LayerUI \<times> exn option" where
  "load vparams bundle' s =
     (let request = s\<lparr>pending := pending s @
            [(bundle_or_default bundle' (defaultBundleName s), prefabPath (heap s vparams), vparams)]\<rparr>
      in case map_of (ui_nodes s) (uuid (heap s vparams)) of
           None \<Rightarrow> (request, None)
         | Some vp \<Rightarrow>
             if node (heap s vp) \<noteq> None
             then (case createNode vp s of (s', Inl e) \<Rightarrow> (s', Some e) | (s', Inr _) \<Rightarrow> (s', None))
             else (request, None))"

text \<open>The callback handed to \<open>oops.res.load\<close>, run later with \<open>err\<close> and the resource.
  \<open>instantiate\<close> belongs to the engine: whether it returns a node for the delivered
  resource or throws is an input of the step (\<open>instantiates\<close>).\<close>

definition load_callback :: "ref \<Rightarrow> string option \<Rightarrow> bool \<Rightarrow> LayerUI \<Rightarrow> LayerUI \<times> exn option" where
  "load_callback vparams err instantiates s =
     (let s1 = (case err of None \<Rightarrow> s | Some e \<Rightarrow> s\<lparr>logs := logs s @ [LogError e]\<rparr>)
      in if \<not> instantiates then (s1, Some InstantiateError)
         else
           let childNode = next_node s1;
               s2 = s1\<lparr>next_node := Suc childNode,
                       scene := (scene s1)(childNode := \<lparr>component = None, destroyed = False\<rparr>)\<rparr>;
               s3 = s2\<lparr>heap := (heap s2)(vparams := (heap s2 vparams)\<lparr>node := Some childNode\<rparr>)\<rparr>;
               s4 = s3\<lparr>scene := (scene s3)(childNode := (scene s3 childNode)
                         \<lparr>component := Some \<lparr>viewParams = Some vparams\<rparr>\<rparr>)\<rparr>
           in case createNode vparams s4 of
                (s', Inl e) \<Rightarrow> (s', Some e)
              | (s', Inr _) \<Rightarrow> (s', None))"

text \<open>The asset provider completes the \<open>i\<close>-th outstanding request, in any order.\<close>

definition complete :: "nat \<Rightarrow> string option \<Rightarrow> bool \<Rightarrow> LayerUI \<Rightarrow> LayerUI \<times> exn option" where
  "complete i err instantiates s =
     (if i < length (pending s)
      then load_callback (snd (snd (pending s ! i))) err instantiates
             (s\<lparr>pending := take i (pending s) @ drop (Suc i) (pending s)\<rparr>)
      else (s, None))"

subsection \<open>\<open>add\<close>\<close>

definition add :: "UIConfig \<Rightarrow> nat option \<Rightarrow> nat option \<Rightarrow> LayerUI \<Rightarrow> LayerUI \<times> (exn + string)" where
  "add config params' callbacks' s =
     (let prefabPath' = prefab config;
          uuid' = getUuid s prefabPath';
          found = map_of (ui_nodes s) uuid'
      in if (case found of None \<Rightarrow> False | Some vp \<Rightarrow> valid (heap s vp))
         then (s\<lparr>logs := logs s @ [LogWarn prefabPath']\<rparr>, Inr [])
         else
           let (vp, s1) =
                 (case found of
                    None \<Rightarrow>
                      (next_ref s,
                       s\<lparr>next_ref := Suc (next_ref s),
                         heap := (heap s)(next_ref s :=
                                   new_ViewParams\<lparr>uuid := uuid', prefabPath := prefabPath'\<rparr>),
                         ui_nodes := AList.update uuid' (next_ref s) (ui_nodes s)\<rparr>)
                  | Some vp \<Rightarrow> (vp, s));
               s2 = s1\<lparr>heap := (heap s1)(vp := (heap s1 vp)
                        \<lparr>params := nullish params', callbacks := nullish callbacks', valid := True\<rparr>)\<rparr>
           in case load vp (bundleName config) s2 of
                (s3, Some e) \<Rightarrow> (s3, Inl e)
              | (s3, None) \<Rightarrow> (s3, Inr uuid'))"

subsection \<open>\<open>__nodes\<close> and the queries\<close>

text \<open>\<open>__nodes\<close> is \<open>layer_nodes\<close> here, \<open>get\<close> is \<open>get_nodes\<close> and \<open>size\<close> is
  \<open>size_layer\<close>; a component is given by the node that owns it, so \<open>comp.node\<close> is the
  element of the list itself.\<close>

definition layer_nodes :: "LayerUI \<Rightarrow> node_id list" where
  "layer_nodes s =
     filter (\<lambda>n. case component (scene s n) of
                   None \<Rightarrow> False
                 | Some dc \<Rightarrow>
                     (case viewParams dc of
                        None \<Rightarrow> False
                      | Some vp \<Rightarrow> valid (heap s vp) \<and> \<not> destroyed (scene s n)))
       (children s)"

text \<open>The queries read the record of a component returned by \<open>__nodes\<close>; reading a field
  of an absent record is a \<open>TypeError\<close>.\<close>

fun get_loop :: "string \<Rightarrow> node_id list \<Rightarrow> LayerUI \<Rightarrow> exn + node_id list" where
  "get_loop prefabPath' [] s = Inr []"
| "get_loop prefabPath' (c # cs) s =
     (case comp_viewParams s c of
        None \<Rightarrow> Inl TypeError
      | Some vp \<Rightarrow>
          (case get_loop prefabPath' cs s of
             Inl e \<Rightarrow> Inl e
           | Inr arr \<Rightarrow> Inr (if prefabPath (heap s vp) = prefabPath' then c # arr else arr)))"

definition get_nodes :: "string \<Rightarrow> LayerUI \<Rightarrow> exn + node_id list" where
  "get_nodes prefabPath' s = get_loop prefabPath' (layer_nodes s) s"

fun has_loop :: "string \<Rightarrow> node_id list \<Rightarrow> LayerUI \<Rightarrow> exn + bool" where
  "has_loop key [] s = Inr False"
| "has_loop key (c # cs) s =
     (case comp_viewParams s c of
        None \<Rightarrow> Inl TypeError
      | Some vp \<Rightarrow>
          if uuid (heap s vp) = key \<or> prefabPath (heap s vp) = key then Inr True
          else has_loop key cs s)"

definition has :: "string \<Rightarrow> LayerUI \<Rightarrow> exn + bool" where
  "has prefabPathOrUUID s = has_loop prefabPathOrUUID (layer_nodes s) s"

fun getByUuid_loop :: "string \<Rightarrow> node_id list \<Rightarrow> LayerUI \<Rightarrow> node_id option" where
  "getByUuid_loop uuid' [] s = None"
| "getByUuid_loop uuid' (c # cs) s =
     (case comp_viewParams s c of
        None \<Rightarrow> getByUuid_loop uuid' cs s
      | Some vp \<Rightarrow> if uuid (heap s vp) = uuid' then Some c else getByUuid_loop uuid' cs s)"

definition getByUuid :: "string \<Rightarrow> LayerUI \<Rightarrow> node_id option" where
  "getByUuid uuid' s = getByUuid_loop uuid' (layer_nodes s) s"

definition size_layer :: "LayerUI \<Rightarrow> nat" where
  "size_layer s = length (children s)"

subsection \<open>\<open>removeCache\<close>, \<open>remove\<close>, \<open>removeByUuid\<close>, \<open>clear\<close>\<close>

definition removeCache :: "string \<Rightarrow> LayerUI \<Rightarrow> LayerUI \<times> exn option" where
  "removeCache prefabPath' s =
     (case map_of (ui_cache s) prefabPath' of
        None \<Rightarrow> (s, None)
      | Some vp \<Rightarrow>
          (case node (heap s vp) of
             None \<Rightarrow> (s, Some TypeError)
           | Some childNode \<Rightarrow>
               (case component (scene s childNode) of
                  None \<Rightarrow> (s, Some TypeError)
                | Some dc \<Rightarrow>
                    let s1 = delegate_remove childNode True s;
                        s2 = s1\<lparr>ui_nodes := AList.delete (uuid (heap s1 vp)) (ui_nodes s1)\<rparr>
                    in (s2\<lparr>ui_cache := AList.delete prefabPath' (ui_cache s2)\<rparr>, None))))"

text \<open>The body of the loop of \<open>remove\<close> for a child whose record matches the path.\<close>

definition remove_match :: "node_id \<Rightarrow> ref \<Rightarrow> bool \<Rightarrow> LayerUI \<Rightarrow> LayerUI" where
  "remove_match c vp isDestroy s =
     (let s1 = (if isDestroy
                then s\<lparr>ui_nodes := AList.delete (uuid (heap s vp)) (ui_nodes s)\<rparr>
                else s\<lparr>ui_cache := AList.update (prefabPath (heap s vp)) vp (ui_cache s)\<rparr>);
          s2 = delegate_remove c isDestroy s1
      in s2\<lparr>heap := (heap s2)(vp := (heap s2 vp)\<lparr>valid := False\<rparr>)\<rparr>)"

fun remove_loop :: "string \<Rightarrow> bool \<Rightarrow> node_id list \<Rightarrow> LayerUI \<Rightarrow> LayerUI \<times> exn option" where
  "remove_loop prefabPath' isDestroy [] s = (s, None)"
| "remove_loop prefabPath' isDestroy (c # cs) s =
     (case comp_viewParams s c of
        None \<Rightarrow> (s, Some TypeError)
      | Some vp \<Rightarrow>
          if prefabPath (heap s vp) = prefabPath'
          then remove_loop prefabPath' isDestroy cs (remove_match c vp isDestroy s)
          else remove_loop prefabPath' isDestroy cs s)"

text \<open>\<open>remove\<close> is \<open>remove_ui\<close> here. The list of \<open>__nodes\<close> is taken once, before the
  loop.\<close>

definition remove_ui :: "string \<Rightarrow> bool \<Rightarrow> LayerUI \<Rightarrow> LayerUI \<times> exn option" where
  "remove_ui prefabPath' isDestroy s =
     (case (if isDestroy then removeCache prefabPath' s else (s, None)) of
        (s1, Some e) \<Rightarrow> (s1, Some e)
      | (s1, None) \<Rightarrow> remove_loop prefabPath' isDestroy (layer_nodes s1) s1)"

definition removeByUuid :: "string \<Rightarrow> bool \<Rightarrow> LayerUI \<Rightarrow> LayerUI \<times> exn option" where
  "removeByUuid uuid' isDestroy s =
     (case map_of (ui_nodes s) uuid' of
        None \<Rightarrow> (s, None)
      | Some vp \<Rightarrow>
          let s1 = (if isDestroy
                    then s\<lparr>ui_nodes := AList.delete (uuid (heap s vp)) (ui_nodes s)\<rparr>
                    else s)
          in case node (heap s1 vp) of
               None \<Rightarrow> (s1, Some TypeError)
             | Some childNode \<Rightarrow>
                 (case component (scene s1 childNode) of
                    None \<Rightarrow> (s1, Some TypeError)
                  | Some dc \<Rightarrow> (delegate_remove childNode isDestroy s1, None)))"

text \<open>\<open>Map.forEach\<close> visits the entries in insertion order and skips an entry deleted
  before its turn; the callbacks here only delete. An exception leaves the loop and the
  method, and the changes made so far stay.\<close>

fun clear_nodes_loop :: "(string \<times> ref) list \<Rightarrow> bool \<Rightarrow> LayerUI \<Rightarrow> LayerUI \<times> exn option" where
  "clear_nodes_loop [] isDestroy s = (s, None)"
| "clear_nodes_loop ((key, v) # es) isDestroy s =
     (if map_of (ui_nodes s) key = None then clear_nodes_loop es isDestroy s
      else
        case removeByUuid (uuid (heap s v)) isDestroy s of
          (s1, Some e) \<Rightarrow> (s1, Some e)
        | (s1, None) \<Rightarrow>
            clear_nodes_loop es isDestroy (s1\<lparr>heap := (heap s1)(v := (heap s1 v)\<lparr>valid := False\<rparr>)\<rparr>))"

fun clear_cache_loop :: "(string \<times> ref) list \<Rightarrow> LayerUI \<Rightarrow> LayerUI \<times> exn option" where
  "clear_cache_loop [] s = (s, None)"
| "clear_cache_loop ((prefabPath', v) # es) s =
     (if map_of (ui_cache s) prefabPath' = None then clear_cache_loop es s
      else
        case removeCache prefabPath' s of
          (s1, Some e) \<Rightarrow> (s1, Some e)
        | (s1, None) \<Rightarrow> clear_cache_loop es s1)"

definition clear :: "bool \<Rightarrow> LayerUI \<Rightarrow> LayerUI \<times> exn option" where
  "clear isDestroy s =
     (case clear_nodes_loop (ui_nodes s) isDestroy s of
        (s1, Some e) \<Rightarrow> (s1, Some e)
      | (s1, None) \<Rightarrow>
          let s2 = s1\<lparr>ui_nodes := []\<rparr>
          in if isDestroy then clear_cache_loop (ui_cache s2) s2 else (s2, None))"

subsection \<open>Runs of the layer\<close>

text \<open>The calls a client can make and the completions of the asset provider, one after the
  other on the single thread. A call that throws leaves the state it had reached.\<close>

datatype event =
    Add UIConfig "nat option" "nat option"
  | Remove string bool
  | Clear bool
  | Complete nat "string option" bool

fun step :: "event \<Rightarrow> LayerUI \<Rightarrow> LayerUI" where
  "step (Add config p c) s = fst (add config p c s)"
| "step (Remove path d) s = fst (remove_ui path d s)"
| "step (Clear d) s = fst (clear d s)"
| "step (Complete i err inst) s = fst (complete i err inst s)"

definition exec :: "event list \<Rightarrow> LayerUI \<Rightarrow> LayerUI" where
  "exec es s = foldl (\<lambda>st e. step e st) s es"

text \<open>The runs of the scenario of the specification: the layer \<open>Dialog\<close> and the prefab
  \<open>ui/Confirm\<close>.\<close>

definition confirm :: UIConfig where
  "confirm = \<lparr>prefab = ''ui/Confirm'', bundleName = None\<rparr>"

definition orphan_run :: "event list" where
  "orphan_run =
     [Add confirm None None, Complete 0 None True, Remove ''ui/Confirm'' False, Clear False,
      Add confirm None None, Remove ''ui/Confirm'' True]"

definition cached_run :: "event list" where
  "cached_run = [Add confirm None None, Complete 0 None True, Remove ''ui/Confirm'' False]"

text \<open>A layer named \<open>L\<close> on which the identifier of the path \<open>x\<close> is the path
  \<open>L_x\<close>.\<close>

definition collision_run :: "event list" where
  "collision_run =
     [Add \<lparr>prefab = ''x'', bundleName = None\<rparr> None None, Complete 0 None True,
      Add \<lparr>prefab = ''L_x'', bundleName = None\<rparr> None None, Complete 0 None True]"

text \<open>The calls that release: \<open>remove\<close> and \<open>clear\<close> with \<open>isDestroy = true\<close>.\<close>

fun destructive :: "event \<Rightarrow> bool" where
  "destructive (Remove path d) = d"
| "destructive (Clear d) = d"
| "destructive (Add config p c) = False"
| "destructive (Complete i err inst) = False"

text \<open>The records with an outstanding request.\<close>

definition refs :: "LayerUI \<Rightarrow> ref set" where
  "refs s = (\<lambda>q. snd (snd q)) ` set (pending s)"

subsection \<open>Well-formed states\<close>

text \<open>What every run keeps: a \<open>Map\<close> has no key twice, \<open>ui_nodes\<close> files a record under
  its \<open>uuid\<close> and \<open>ui_cache\<close> under its \<open>prefabPath\<close>, and every reference in use has
  been allocated.\<close>

definition wf :: "LayerUI \<Rightarrow> bool" where
  "wf s \<longleftrightarrow>
     distinct (map fst (ui_nodes s)) \<and> distinct (map fst (ui_cache s)) \<and>
     (\<forall>(k, r) \<in> set (ui_nodes s). uuid (heap s r) = k \<and> r < next_ref s) \<and>
     (\<forall>(p, r) \<in> set (ui_cache s). prefabPath (heap s r) = p \<and> r < next_ref s) \<and>
     (\<forall>(b, p, r) \<in> set (pending s). r < next_ref s) \<and>
     (\<forall>n r. comp_viewParams s n = Some r \<longrightarrow> r < next_ref s)"

text \<open>How records, visuals and requests hang together in every run: a record without a
  visual is valid, a request is outstanding only for a record without a visual and no
  record has two, the component of a node refers to the record whose visual the node is, a
  node not yet created has no component, and a cached record has its visual.\<close>

definition linked :: "LayerUI \<Rightarrow> bool" where
  "linked s \<longleftrightarrow>
     (\<forall>r. node (heap s r) = None \<longrightarrow> valid (heap s r)) \<and>
     (\<forall>(b, p, r) \<in> set (pending s). node (heap s r) = None) \<and>
     distinct (map (\<lambda>q. snd (snd q)) (pending s)) \<and>
     (\<forall>n r. (comp_viewParams s n = Some r) = (node (heap s r) = Some n)) \<and>
     (\<forall>n. next_node s \<le> n \<longrightarrow> comp_viewParams s n = None) \<and>
     (\<forall>(p, r) \<in> set (ui_cache s). node (heap s r) \<noteq> None)"

definition inv :: "LayerUI \<Rightarrow> bool" where
  "inv s \<longleftrightarrow> wf s \<and> linked s"

section \<open>Every run is well-formed\<close>

lemmas run_defs = exec_def init_def add_def getUuid_def load_def new_ViewParams_def complete_def
  load_callback_def createNode_def delegate_add_def set_parent_def remove_ui_def layer_nodes_def
  comp_viewParams_def delegate_remove_def removeCache_def removeByUuid_def clear_def Let_def
  remove_match_def get_nodes_def has_def confirm_def cached_run_def orphan_run_def collision_run_def

lemma wf_init: "wf (init n d)"
  by (simp add: wf_def init_def comp_viewParams_def)

lemma set_delete_subset: "set (AList.delete k m) \<subseteq> set m"
  by (auto simp: AList.delete_eq)

lemma set_update_subset: "set (AList.update k v m) \<subseteq> insert (k, v) (set m)"
  by (induction m) auto

lemma wf_delegate_remove: "wf s \<Longrightarrow> wf (delegate_remove n d s)"
  by (auto simp: wf_def delegate_remove_def Let_def comp_viewParams_def)

lemma wf_set_parent: "wf s \<Longrightarrow> wf (set_parent n s)"
  by (auto simp: wf_def set_parent_def comp_viewParams_def)

lemma wf_valid_upd: "wf s \<Longrightarrow> wf (s\<lparr>heap := (heap s)(r := (heap s r)\<lparr>valid := b\<rparr>)\<rparr>)"
  by (auto simp: wf_def comp_viewParams_def)

lemma wf_createNode: "wf s \<Longrightarrow> wf (fst (createNode vp s))"
  unfolding createNode_def Let_def delegate_add_def
  by (auto split: option.splits intro!: wf_set_parent wf_valid_upd)

lemma wf_ui_nodes_delete: "wf s \<Longrightarrow> wf (s\<lparr>ui_nodes := AList.delete k (ui_nodes s)\<rparr>)"
  using set_delete_subset[of k "ui_nodes s"]
  by (auto simp: wf_def comp_viewParams_def distinct_delete)

lemma wf_ui_cache_delete: "wf s \<Longrightarrow> wf (s\<lparr>ui_cache := AList.delete k (ui_cache s)\<rparr>)"
  using set_delete_subset[of k "ui_cache s"]
  by (auto simp: wf_def comp_viewParams_def distinct_delete)

lemma wf_ui_cache_update:
  "wf s \<Longrightarrow> r < next_ref s \<Longrightarrow> wf (s\<lparr>ui_cache := AList.update (prefabPath (heap s r)) r (ui_cache s)\<rparr>)"
  using set_update_subset[of "prefabPath (heap s r)" r "ui_cache s"]
  by (auto simp: wf_def comp_viewParams_def distinct_update)

lemma in_delete_D: "(k, r) \<in> set (AList.delete k' m) \<Longrightarrow> (k, r) \<in> set m"
  by (auto simp: AList.delete_eq)

lemma wf_removeCache: "wf s \<Longrightarrow> wf (fst (removeCache p s))"
  by (auto simp: wf_def removeCache_def Let_def delegate_remove_def comp_viewParams_def
        distinct_delete split: option.splits dest!: in_delete_D)

lemma wf_removeByUuid: "wf s \<Longrightarrow> wf (fst (removeByUuid k d s))"
  by (auto simp: wf_def removeByUuid_def Let_def delegate_remove_def comp_viewParams_def
        distinct_delete split: option.splits dest!: in_delete_D)


lemma in_update_D: "(k, r) \<in> set (AList.update k' v m) \<Longrightarrow> (k, r) = (k', v) \<or> (k, r) \<in> set m"
  by (induction m) (auto split: if_splits)

lemma wf_remove_match:
  assumes "wf s" "comp_viewParams s c = Some vp"
  shows "wf (remove_match c vp d s)"
proof -
  have b: "vp < next_ref s" using assms by (auto simp: wf_def)
  show ?thesis
  proof (cases d)
    case True
    from assms(1) have "wf (s\<lparr>ui_nodes := AList.delete (uuid (heap s vp)) (ui_nodes s)\<rparr>)"
      by (rule wf_ui_nodes_delete)
    then show ?thesis using True
      by (simp add: remove_match_def Let_def wf_delegate_remove wf_valid_upd)
  next
    case False
    from assms(1) b have "wf (s\<lparr>ui_cache := AList.update (prefabPath (heap s vp)) vp (ui_cache s)\<rparr>)"
      by (rule wf_ui_cache_update)
    then show ?thesis using False
      by (simp add: remove_match_def Let_def wf_delegate_remove wf_valid_upd)
  qed
qed

lemma wf_remove_loop: "wf s \<Longrightarrow> wf (fst (remove_loop p d cs s))"
proof (induction cs arbitrary: s)
  case Nil
  then show ?case by simp
next
  case (Cons c cs)
  show ?case
  proof (cases "comp_viewParams s c")
    case None
    then show ?thesis using Cons.prems by simp
  next
    case (Some vp)
    have "wf (remove_match c vp d s)" using Cons.prems Some by (rule wf_remove_match)
    from Cons.IH[OF this] Cons.IH[OF Cons.prems] show ?thesis using Some by simp
  qed
qed

lemma wf_remove_ui: "wf s \<Longrightarrow> wf (fst (remove_ui p d s))"
  using wf_removeCache[of s p] wf_remove_loop
  by (auto simp: remove_ui_def split: prod.splits option.splits if_splits)

lemma wf_clear_nodes_loop: "wf s \<Longrightarrow> wf (fst (clear_nodes_loop es d s))"
proof (induction es arbitrary: s)
  case Nil
  then show ?case by simp
next
  case (Cons e es)
  obtain k v where e: "e = (k, v)" by (cases e)
  obtain s1 r where rb: "removeByUuid (uuid (heap s v)) d s = (s1, r)" by (cases "removeByUuid (uuid (heap s v)) d s")
  have w1: "wf s1" using wf_removeByUuid[OF Cons.prems, of "uuid (heap s v)" d] rb by simp
  show ?case
  proof (cases "map_of (ui_nodes s) k = None")
    case True
    then show ?thesis using e Cons by simp
  next
    case False
    show ?thesis
    proof (cases r)
      case None
      have "wf (s1\<lparr>heap := (heap s1)(v := (heap s1 v)\<lparr>valid := False\<rparr>)\<rparr>)"
        using w1 by (rule wf_valid_upd)
      from Cons.IH[OF this] show ?thesis using e rb None by (simp add: False)
    next
      case (Some x)
      then show ?thesis using e rb w1 by (simp add: False)
    qed
  qed
qed

lemma wf_clear_cache_loop: "wf s \<Longrightarrow> wf (fst (clear_cache_loop es s))"
proof (induction es arbitrary: s)
  case Nil
  then show ?case by simp
next
  case (Cons e es)
  obtain k v where e: "e = (k, v)" by (cases e)
  obtain s1 r where rb: "removeCache k s = (s1, r)" by (cases "removeCache k s")
  have w1: "wf s1" using wf_removeCache[OF Cons.prems, of k] rb by simp
  show ?case
  proof (cases "map_of (ui_cache s) k = None")
    case True
    then show ?thesis using e Cons by simp
  next
    case False
    show ?thesis
    proof (cases r)
      case None
      from Cons.IH[OF w1] show ?thesis using e rb None by (simp add: False)
    next
      case (Some x)
      then show ?thesis using e rb w1 by (simp add: False)
    qed
  qed
qed

lemma wf_ui_nodes_clear: "wf s \<Longrightarrow> wf (s\<lparr>ui_nodes := []\<rparr>)"
  by (auto simp: wf_def comp_viewParams_def)

lemma wf_clear: "wf s \<Longrightarrow> wf (fst (clear d s))"
proof -
  assume w: "wf s"
  obtain s1 r where l: "clear_nodes_loop (ui_nodes s) d s = (s1, r)"
    by (cases "clear_nodes_loop (ui_nodes s) d s")
  have w1: "wf s1" using wf_clear_nodes_loop[OF w, of "ui_nodes s" d] l by simp
  have w2: "wf (s1\<lparr>ui_nodes := []\<rparr>)" using w1 by (rule wf_ui_nodes_clear)
  show ?thesis
    using l w1 w2 wf_clear_cache_loop[OF w2, of "ui_cache s1"]
    by (cases r) (simp_all add: clear_def Let_def)
qed


lemma fst_case_sum [simp]:
  "fst (case p of (s', Inl e) \<Rightarrow> (s', f e) | (s', Inr x) \<Rightarrow> (s', g x)) = fst p"
  by (cases p; cases "snd p") auto

lemma fst_case_option [simp]:
  "fst (case p of (s', Some e) \<Rightarrow> (s', f e) | (s', None) \<Rightarrow> (s', g)) = fst p"
  by (cases p; cases "snd p") auto

lemma wf_request:
  "wf s \<Longrightarrow> r < next_ref s \<Longrightarrow> wf (s\<lparr>pending := pending s @ [(b, p, r)]\<rparr>)"
  by (auto simp: wf_def comp_viewParams_def)

lemma wf_load: "wf s \<Longrightarrow> r < next_ref s \<Longrightarrow> wf (fst (load r b s))"
  by (auto simp: load_def Let_def wf_request wf_createNode split: option.splits)

lemma wf_load_callback:
  assumes "wf s" "r < next_ref s"
  shows "wf (fst (load_callback r err inst s))"
proof -
  define s1 where "s1 = (case err of None \<Rightarrow> s | Some e \<Rightarrow> s\<lparr>logs := logs s @ [LogError e]\<rparr>)"
  define s4 where "s4 = s1\<lparr>next_node := Suc (next_node s1),
       heap := (heap s1)(r := (heap s1 r)\<lparr>node := Some (next_node s1)\<rparr>),
       scene := (scene s1)(next_node s1 := \<lparr>component = Some \<lparr>viewParams = Some r\<rparr>, destroyed = False\<rparr>)\<rparr>"
  have w1: "wf s1" "next_ref s1 = next_ref s"
    using assms(1) by (auto simp: s1_def wf_def comp_viewParams_def split: option.splits)
  have w4: "wf s4"
    using w1 assms(2) by (auto simp: s4_def wf_def comp_viewParams_def split: option.splits)
  have "fst (load_callback r err inst s) = (if inst then fst (createNode r s4) else s1)"
    by (simp add: load_callback_def Let_def s1_def s4_def)
  then show ?thesis using w1 w4 wf_createNode[of s4 r] by simp
qed

lemma wf_drop_request:
  "wf s \<Longrightarrow> wf (s\<lparr>pending := take i (pending s) @ drop (Suc i) (pending s)\<rparr>)"
  by (auto simp: wf_def comp_viewParams_def dest: in_set_takeD in_set_dropD)

lemma wf_complete: "wf s \<Longrightarrow> wf (fst (complete i err inst s))"
proof (cases "i < length (pending s)")
  case True
  assume w: "wf s"
  have m: "pending s ! i \<in> set (pending s)" using True by simp
  have "\<forall>x \<in> set (pending s). snd (snd x) < next_ref s"
    using w by (auto simp: wf_def)
  then have "snd (snd (pending s ! i)) < next_ref s"
    using m by blast
  then show ?thesis
    using wf_load_callback[OF wf_drop_request[OF w, of i]] True
    by (simp add: complete_def)
next
  case False
  assume "wf s"
  then show ?thesis using False by (simp add: complete_def)
qed

lemma wf_alloc:
  assumes "wf s" "map_of (ui_nodes s) k = None"
  shows "wf (s\<lparr>next_ref := Suc (next_ref s),
              heap := (heap s)(next_ref s := new_ViewParams\<lparr>uuid := k, prefabPath := p\<rparr>),
              ui_nodes := AList.update k (next_ref s) (ui_nodes s)\<rparr>)"
  using assms
  by (fastforce simp: wf_def comp_viewParams_def distinct_update dest!: in_update_D)

lemma wf_claim:
  "wf s \<Longrightarrow> wf (s\<lparr>heap := (heap s)(r := (heap s r)\<lparr>params := a, callbacks := b, valid := True\<rparr>)\<rparr>)"
  by (auto simp: wf_def comp_viewParams_def)

lemma wf_add: "wf s \<Longrightarrow> wf (fst (add config p c s))"
proof -
  assume w: "wf s"
  let ?k = "getUuid s (prefab config)"
  show ?thesis
  proof (cases "map_of (ui_nodes s) ?k")
    case None
    let ?s1 = "s\<lparr>next_ref := Suc (next_ref s),
              heap := (heap s)(next_ref s := new_ViewParams\<lparr>uuid := ?k, prefabPath := prefab config\<rparr>),
              ui_nodes := AList.update ?k (next_ref s) (ui_nodes s)\<rparr>"
    have w1: "wf ?s1" using w None by (rule wf_alloc)
    have w2: "wf (?s1\<lparr>heap := (heap ?s1)(next_ref s := (heap ?s1 (next_ref s))\<lparr>params := nullish p, callbacks := nullish c, valid := True\<rparr>)\<rparr>)"
      using w1 by (rule wf_claim)
    have "wf (fst (load (next_ref s) (bundleName config) (?s1\<lparr>heap := (heap ?s1)(next_ref s := (heap ?s1 (next_ref s))\<lparr>params := nullish p, callbacks := nullish c, valid := True\<rparr>)\<rparr>)))"
      using w2 by (rule wf_load) simp
    then show ?thesis using None
      by (simp add: add_def Let_def)
  next
    case (Some vp)
    have b: "vp < next_ref s" using w map_of_SomeD[OF Some] by (auto simp: wf_def)
    have w2: "wf (s\<lparr>heap := (heap s)(vp := (heap s vp)\<lparr>params := nullish p, callbacks := nullish c, valid := True\<rparr>)\<rparr>)"
      using w by (rule wf_claim)
    have "wf (fst (load vp (bundleName config) (s\<lparr>heap := (heap s)(vp := (heap s vp)\<lparr>params := nullish p, callbacks := nullish c, valid := True\<rparr>)\<rparr>)))"
      using w2 by (rule wf_load) (simp add: b)
    moreover have "wf (s\<lparr>logs := logs s @ [LogWarn (prefab config)]\<rparr>)"
      using w by (auto simp: wf_def comp_viewParams_def)
    ultimately show ?thesis using Some
      by (simp add: add_def Let_def)
  qed
qed

lemma wf_step: "wf s \<Longrightarrow> wf (step e s)"
  by (cases e) (simp_all add: wf_add wf_remove_ui wf_clear wf_complete)

lemma wf_exec: "wf s \<Longrightarrow> wf (exec es s)"
  unfolding exec_def by (induction es arbitrary: s) (simp_all add: wf_step)

lemma wf_reachable: "wf (exec es (init n d))"
  by (rule wf_exec[OF wf_init])

section \<open>Identifiers and duplicate adds\<close>

lemma replace_slash_map: "replace_slash xs = map (\<lambda>c. if c = CHR ''/'' then CHR ''_'' else c) xs"
  by (induction xs) auto

lemma length_getUuid: "length (getUuid s p) = Suc (length (name s) + length p)"
  by (simp add: getUuid_def replace_slash_map)

lemma getUuid_neq_path: "getUuid s p \<noteq> p"
  using length_getUuid[of s p] by (metis Suc_n_not_le_n le_add2)

lemma getUuid_nonempty: "getUuid s p \<noteq> []"
  using length_getUuid[of s p] by auto

lemma createNode_frame [simp]:
  "name (fst (createNode vp s)) = name s"
  "ui_nodes (fst (createNode vp s)) = ui_nodes s"
  "ui_cache (fst (createNode vp s)) = ui_cache s"
  "pending (fst (createNode vp s)) = pending s"
  "logs (fst (createNode vp s)) = logs s"
  "scene (fst (createNode vp s)) = scene s"
  "heap (fst (createNode vp s)) = (heap s)(vp := (heap s vp)\<lparr>valid := True\<rparr>)"
  by (simp_all add: createNode_def Let_def set_parent_def delegate_add_def split: option.splits)

lemma load_frame [simp]:
  "name (fst (load r b s)) = name s"
  "ui_nodes (fst (load r b s)) = ui_nodes s"
  "ui_cache (fst (load r b s)) = ui_cache s"
  "logs (fst (load r b s)) = logs s"
  by (simp_all add: load_def Let_def split: option.splits)

lemma load_keeps_valid: "valid (heap s r') \<Longrightarrow> valid (heap (fst (load r b s)) r')"
  by (simp add: load_def Let_def split: option.splits)

lemma add_frame [simp]: "name (fst (add config p c s)) = name s"
  by (simp add: add_def Let_def split: option.splits prod.splits)

lemma add_claimed:
  "\<exists>vp. map_of (ui_nodes (fst (add config p c s))) (getUuid s (prefab config)) = Some vp \<and>
        valid (heap (fst (add config p c s)) vp)"
proof (cases "map_of (ui_nodes s) (getUuid s (prefab config))")
  case None
  then show ?thesis
    by (simp add: add_def Let_def update_conv' load_keeps_valid)
next
  case (Some vp)
  then show ?thesis
    by (cases "valid (heap s vp)") (simp_all add: add_def Let_def load_keeps_valid)
qed

lemma add_duplicate:
  assumes "map_of (ui_nodes s) (getUuid s (prefab config)) = Some vp" "valid (heap s vp)"
  shows "add config p c s = (s\<lparr>logs := logs s @ [LogWarn (prefab config)]\<rparr>, Inr [])"
  using assms by (simp add: add_def Let_def)

lemma filter_key_distinct:
  "distinct (map fst m) \<Longrightarrow> map_of m k = Some v \<Longrightarrow> filter (\<lambda>e. fst e = k) m = [(k, v)]"
proof (induction m)
  case Nil
  then show ?case by simp
next
  case (Cons e m)
  obtain k' v' where e: "e = (k', v')" by (cases e)
  show ?case
  proof (cases "k' = k")
    case True
    have "filter (\<lambda>e. fst e = k) m = []"
      using Cons.prems(1) e True by (auto simp: filter_empty_conv)
    then show ?thesis using Cons.prems e True by simp
  next
    case False
    then show ?thesis using Cons e by simp
  qed
qed

lemma ui_nodes_add:
  "ui_nodes (fst (add config p c s)) =
     (if map_of (ui_nodes s) (getUuid s (prefab config)) = None
      then AList.update (getUuid s (prefab config)) (next_ref s) (ui_nodes s)
      else ui_nodes s)"
  by (auto simp: add_def Let_def split: option.splits)

lemma add_twice:
  assumes "add config p c s = (s1, r1)" and "prefab config' = prefab config"
    and "distinct (map fst (ui_nodes s))"
  shows "add config' p' c' s1 = (s1\<lparr>logs := logs s1 @ [LogWarn (prefab config)]\<rparr>, Inr []) \<and>
         length (filter (\<lambda>e. fst e = getUuid s (prefab config))
                   (ui_nodes (fst (add config' p' c' s1)))) = 1"
proof -
  have s1: "s1 = fst (add config p c s)" using assms(1) by simp
  obtain vp where vp: "map_of (ui_nodes s1) (getUuid s (prefab config)) = Some vp"
      "valid (heap s1 vp)"
    using add_claimed[of config p c s] s1 by auto
  have g: "getUuid s1 (prefab config') = getUuid s (prefab config)"
    using s1 assms(2) by (simp add: getUuid_def)
  have a: "add config' p' c' s1 = (s1\<lparr>logs := logs s1 @ [LogWarn (prefab config)]\<rparr>, Inr [])"
    using add_duplicate[of s1 config' vp p' c'] vp g assms(2) by simp
  have "distinct (map fst (ui_nodes s1))"
    using assms(3) by (simp add: s1 ui_nodes_add distinct_update)
  then have "filter (\<lambda>e. fst e = getUuid s (prefab config)) (ui_nodes s1)
               = [(getUuid s (prefab config), vp)]"
    using vp(1) by (rule filter_key_distinct)
  then show ?thesis using a by simp
qed

text \<open>Claim C3: a second \<open>add\<close> of the same path, made right after the first and before any
  load completes, returns the empty string and changes nothing but the log, to which it
  appends the duplicate-load warning; \<open>ui_nodes\<close> holds exactly one entry under the
  identifier of the path.\<close>

theorem second_add_rejected:
  assumes "prefab config' = prefab config" and "distinct (map fst (ui_nodes s))"
  shows "snd (add config' p' c' (fst (add config p c s))) = Inr [] \<and>
         fst (add config' p' c' (fst (add config p c s))) =
           (fst (add config p c s))\<lparr>logs := logs (fst (add config p c s)) @ [LogWarn (prefab config)]\<rparr> \<and>
         length (filter (\<lambda>e. fst e = getUuid s (prefab config))
                   (ui_nodes (fst (add config' p' c' (fst (add config p c s)))))) = 1"
proof -
  have "add config p c s = (fst (add config p c s), snd (add config p c s))" by simp
  from add_twice[OF this assms, of p' c']
  show ?thesis by (metis fst_conv snd_conv)
qed

theorem second_add_rejected_witness:
  "prefab \<lparr>prefab = ''ui/Confirm'', bundleName = Some ''b''\<rparr> = prefab \<lparr>prefab = ''ui/Confirm'', bundleName = None\<rparr> \<and>
   distinct (map fst (ui_nodes (init ''Dialog'' ''resources''))) \<and>
   snd (add \<lparr>prefab = ''ui/Confirm'', bundleName = Some ''b''\<rparr> None None
         (fst (add \<lparr>prefab = ''ui/Confirm'', bundleName = None\<rparr> None None (init ''Dialog'' ''resources'')))) = Inr [] \<and>
   logs (fst (add \<lparr>prefab = ''ui/Confirm'', bundleName = Some ''b''\<rparr> None None
         (fst (add \<lparr>prefab = ''ui/Confirm'', bundleName = None\<rparr> None None (init ''Dialog'' ''resources'')))))
     = [LogWarn ''ui/Confirm'']"
proof -
  have h1: "prefab \<lparr>prefab = ''ui/Confirm'', bundleName = Some ''b''\<rparr> = prefab \<lparr>prefab = ''ui/Confirm'', bundleName = None\<rparr>"
    by simp
  have h2: "distinct (map fst (ui_nodes (init ''Dialog'' ''resources'')))"
    by (simp add: init_def)
  have l: "logs (fst (add \<lparr>prefab = ''ui/Confirm'', bundleName = None\<rparr> None None (init ''Dialog'' ''resources''))) = []"
    by (simp add: init_def add_def Let_def)
  show ?thesis
    using second_add_rejected[OF h1 h2, of None None None None] h1 h2 l by simp
qed

section \<open>A record without its visual under \<open>removeByUuid\<close> and \<open>clear\<close>\<close>

lemma removeByUuid_pending:
  assumes "map_of (ui_nodes s) k = Some r" "node (heap s r) = None"
  shows "snd (removeByUuid k d s) = Some TypeError"
  using assms by (simp add: removeByUuid_def Let_def)

lemma removeByUuid_effect:
  assumes "map_of (ui_nodes s) k = Some r" "uuid (heap s r) = k"
    and "removeByUuid k d s = (s1, None)"
  shows "heap s1 = heap s \<and> node (heap s r) \<noteq> None \<and>
         ui_nodes s1 = (if d then AList.delete k (ui_nodes s) else ui_nodes s)"
  using assms
  by (auto simp: removeByUuid_def Let_def delegate_remove_def split: option.splits if_splits)

lemma clear_nodes_loop_throws:
  assumes "\<forall>(k, r) \<in> set es. uuid (heap s r) = k \<and> map_of (ui_nodes s) k = Some r"
    and "distinct (map fst es)"
    and "\<exists>(k, r) \<in> set es. node (heap s r) = None"
  shows "snd (clear_nodes_loop es d s) = Some TypeError"
  using assms
proof (induction es arbitrary: s)
  case Nil
  then show ?case by simp
next
  case (Cons e es)
  obtain k v where e: "e = (k, v)" by (cases e)
  have hd: "uuid (heap s v) = k" "map_of (ui_nodes s) k = Some v"
    using Cons.prems(1) e by auto
  obtain s1 x where rb: "removeByUuid k d s = (s1, x)" by (cases "removeByUuid k d s")
  show ?case
  proof (cases x)
    case (Some err)
    have "err = TypeError"
      using rb Some hd
      by (auto simp: removeByUuid_def Let_def split: option.splits if_splits)
    then show ?thesis using e hd rb Some by simp
  next
    case None
    note eff = removeByUuid_effect[OF hd(2) hd(1) rb[unfolded None]]
    let ?s2 = "s1\<lparr>heap := (heap s1)(v := (heap s1 v)\<lparr>valid := False\<rparr>)\<rparr>"
    have a1: "\<forall>(k', r) \<in> set es. uuid (heap ?s2 r) = k' \<and> map_of (ui_nodes ?s2) k' = Some r"
    proof (clarify)
      fix k' r assume m: "(k', r) \<in> set es"
      then have o: "uuid (heap s r) = k'" "map_of (ui_nodes s) k' = Some r"
        using Cons.prems(1) by auto
      have ne: "k' \<noteq> k" using Cons.prems(2) e m by force
      show "uuid (heap ?s2 r) = k' \<and> map_of (ui_nodes ?s2) k' = Some r"
        using o ne eff by (auto simp: delete_conv')
    qed
    have a2: "distinct (map fst es)" using Cons.prems(2) by simp
    have a3: "\<exists>(k', r) \<in> set es. node (heap ?s2 r) = None"
    proof -
      obtain k' r where m: "(k', r) \<in> set (e # es)" "node (heap s r) = None"
        using Cons.prems(3) by auto
      have "(k', r) \<noteq> (k, v)" using m(2) eff by auto
      then have "(k', r) \<in> set es" using m(1) e by auto
      moreover have "node (heap ?s2 r) = None" using m(2) eff by auto
      ultimately show ?thesis by blast
    qed
    from Cons.IH[OF a1 a2 a3] show ?thesis using e hd rb None by simp
  qed
qed

lemma wf_lookup: "wf s \<Longrightarrow> (k, r) \<in> set (ui_nodes s) \<Longrightarrow> map_of (ui_nodes s) k = Some r \<and> uuid (heap s r) = k"
  by (auto simp: wf_def)

lemma clear_throws:
  assumes "wf s" "(k, r) \<in> set (ui_nodes s)" "node (heap s r) = None"
  shows "snd (clear d s) = Some TypeError"
proof -
  have a1: "\<forall>(k, r) \<in> set (ui_nodes s). uuid (heap s r) = k \<and> map_of (ui_nodes s) k = Some r"
    using wf_lookup[OF assms(1)] by auto
  have a2: "distinct (map fst (ui_nodes s))" using assms(1) by (simp add: wf_def)
  have a3: "\<exists>(k, r) \<in> set (ui_nodes s). node (heap s r) = None" using assms(2,3) by blast
  have "snd (clear_nodes_loop (ui_nodes s) d s) = Some TypeError"
    using a1 a2 a3 by (rule clear_nodes_loop_throws)
  then show ?thesis by (cases "clear_nodes_loop (ui_nodes s) d s") (simp add: clear_def)
qed

text \<open>Claim C10: in every reachable state, for a record of \<open>ui_nodes\<close> whose visual is
  still absent, \<open>removeByUuid\<close> of its identifier and \<open>clear\<close>, with either flag, end in
  the \<open>TypeError\<close> of reading the component of the absent node.\<close>

theorem clear_dereferences_pending_record:
  assumes "s = exec es (init layerName dflt)"
    and "(k, r) \<in> set (ui_nodes s)" and "node (heap s r) = None"
  shows "snd (removeByUuid k d s) = Some TypeError \<and> snd (clear d s) = Some TypeError"
proof -
  have w: "wf s" using assms(1) by (simp add: wf_reachable)
  show ?thesis
    using removeByUuid_pending[of s k r d] wf_lookup[OF w assms(2)] assms(3)
      clear_throws[OF w assms(2,3), of d]
    by simp
qed

theorem clear_dereferences_pending_record_witness:
  "(''Dialog_ui_Confirm'', 0) \<in> set (ui_nodes (exec [Add \<lparr>prefab = ''ui/Confirm'', bundleName = None\<rparr> None None] (init ''Dialog'' ''resources''))) \<and>
   node (heap (exec [Add \<lparr>prefab = ''ui/Confirm'', bundleName = None\<rparr> None None] (init ''Dialog'' ''resources'')) 0) = None \<and>
   snd (removeByUuid ''Dialog_ui_Confirm'' False (exec [Add \<lparr>prefab = ''ui/Confirm'', bundleName = None\<rparr> None None] (init ''Dialog'' ''resources''))) = Some TypeError \<and>
   snd (clear False (exec [Add \<lparr>prefab = ''ui/Confirm'', bundleName = None\<rparr> None None] (init ''Dialog'' ''resources''))) = Some TypeError"
proof -
  let ?s = "exec [Add \<lparr>prefab = ''ui/Confirm'', bundleName = None\<rparr> None None] (init ''Dialog'' ''resources'')"
  have h1: "(''Dialog_ui_Confirm'', 0) \<in> set (ui_nodes ?s)" by (simp add: run_defs)
  have h2: "node (heap ?s 0) = None" by (simp add: run_defs)
  show ?thesis
    using clear_dereferences_pending_record[OF refl h1 h2, of False] h1 h2 by simp
qed

section \<open>The loop of \<open>remove\<close> and the eviction of the cache\<close>

lemma remove_match_frame [simp]:
  "name (remove_match c vp d s) = name s"
  "scene (remove_match c vp d s) n = (if d \<and> n = c then (scene s c)\<lparr>destroyed := True\<rparr> else scene s n)"
  "children (remove_match c vp d s) = removeAll c (children s)"
  "heap (remove_match c vp d s) = (heap s)(vp := (heap s vp)\<lparr>valid := False\<rparr>)"
  "ui_nodes (remove_match c vp d s) = (if d then AList.delete (uuid (heap s vp)) (ui_nodes s) else ui_nodes s)"
  "ui_cache (remove_match c vp d s) = (if d then ui_cache s else AList.update (prefabPath (heap s vp)) vp (ui_cache s))"
  "pending (remove_match c vp d s) = pending s"
  "logs (remove_match c vp d s) = logs s"
  "next_ref (remove_match c vp d s) = next_ref s"
  "next_node (remove_match c vp d s) = next_node s"
  by (simp_all add: remove_match_def delegate_remove_def Let_def)

lemma comp_viewParams_remove_match [simp]:
  "comp_viewParams (remove_match c vp d s) n = comp_viewParams s n"
  by (simp add: comp_viewParams_def)

lemma remove_loop_no_throw:
  "\<forall>c \<in> set cs. comp_viewParams s c \<noteq> None \<Longrightarrow> snd (remove_loop p d cs s) = None"
  by (induction cs arbitrary: s) (auto split: option.splits)

lemma layer_nodes_bound: "c \<in> set (layer_nodes s) \<Longrightarrow> comp_viewParams s c \<noteq> None"
  by (auto simp: layer_nodes_def comp_viewParams_def split: option.splits)

lemma remove_loop_layer_nodes: "snd (remove_loop p d (layer_nodes s) s) = None"
  by (rule remove_loop_no_throw) (simp add: layer_nodes_bound)

lemma remove_loop_destroy_frame:
  "ui_cache (fst (remove_loop p True cs s)) = ui_cache s"
  by (induction cs arbitrary: s) (auto split: option.splits)

lemma remove_loop_ui_nodes_None:
  "map_of (ui_nodes s) k = None \<Longrightarrow> map_of (ui_nodes (fst (remove_loop p d cs s))) k = None"
  by (induction cs arbitrary: s) (auto split: option.splits simp: delete_conv')

lemma remove_loop_destroyed:
  "destroyed (scene s n) \<Longrightarrow> destroyed (scene (fst (remove_loop p d cs s)) n)"
  by (induction cs arbitrary: s) (auto split: option.splits)

lemma remove_loop_children:
  "set (children (fst (remove_loop p d cs s))) \<subseteq> set (children s)"
proof (induction cs arbitrary: s)
  case Nil
  then show ?case by simp
next
  case (Cons c cs)
  show ?case
  proof (cases "comp_viewParams s c")
    case None
    then show ?thesis by simp
  next
    case (Some vp)
    show ?thesis using Cons.IH[of s] Cons.IH[of "remove_match c vp d s"] Some by auto
  qed
qed

lemma removeCache_evicts:
  assumes "map_of (ui_cache s) p = Some vp" "node (heap s vp) = Some n"
    "component (scene s n) = Some dc"
  shows "removeCache p s =
           (s\<lparr>children := removeAll n (children s),
              scene := (scene s)(n := (scene s n)\<lparr>destroyed := True\<rparr>),
              ui_nodes := AList.delete (uuid (heap s vp)) (ui_nodes s),
              ui_cache := AList.delete p (ui_cache s)\<rparr>, None)"
  using assms by (simp add: removeCache_def delegate_remove_def Let_def)

lemma remove_loop_nomatch:
  "\<forall>c \<in> set cs. \<exists>r. comp_viewParams s c = Some r \<and> prefabPath (heap s r) \<noteq> p \<Longrightarrow>
   remove_loop p d cs s = (s, None)"
  by (induction cs arbitrary: s) auto

lemma remove_evicts:
  assumes "map_of (ui_cache s) p = Some vp" and "node (heap s vp) = Some n"
    and "component (scene s n) = Some dc"
  shows "snd (remove_ui p True s) = None \<and>
         map_of (ui_cache (fst (remove_ui p True s))) p = None \<and>
         map_of (ui_nodes (fst (remove_ui p True s))) (uuid (heap s vp)) = None \<and>
         destroyed (scene (fst (remove_ui p True s)) n) \<and>
         n \<notin> set (children (fst (remove_ui p True s))) \<and>
         ((\<forall>c \<in> set (layer_nodes s). \<forall>r. comp_viewParams s c = Some r \<longrightarrow> prefabPath (heap s r) \<noteq> p)
            \<longrightarrow> remove_ui p True s = removeCache p s)"
proof -
  let ?s1 = "s\<lparr>children := removeAll n (children s),
              scene := (scene s)(n := (scene s n)\<lparr>destroyed := True\<rparr>),
              ui_nodes := AList.delete (uuid (heap s vp)) (ui_nodes s),
              ui_cache := AList.delete p (ui_cache s)\<rparr>"
  have rc: "removeCache p s = (?s1, None)" using assms by (rule removeCache_evicts)
  then have ru: "remove_ui p True s = remove_loop p True (layer_nodes ?s1) ?s1"
    by (simp add: remove_ui_def)
  have a: "snd (remove_ui p True s) = None" by (simp only: ru remove_loop_layer_nodes)
  have b: "map_of (ui_cache (fst (remove_ui p True s))) p = None"
    by (simp add: ru remove_loop_destroy_frame delete_conv')
  have c: "map_of (ui_nodes (fst (remove_ui p True s))) (uuid (heap s vp)) = None"
    unfolding ru by (rule remove_loop_ui_nodes_None) (simp add: delete_conv')
  have d: "destroyed (scene (fst (remove_ui p True s)) n)"
    unfolding ru by (rule remove_loop_destroyed) simp
  have e: "n \<notin> set (children (fst (remove_ui p True s)))"
    using remove_loop_children[of p True "layer_nodes ?s1" ?s1] by (auto simp: ru)
  have f: "remove_ui p True s = removeCache p s"
    if h: "\<forall>c \<in> set (layer_nodes s). \<forall>r. comp_viewParams s c = Some r \<longrightarrow> prefabPath (heap s r) \<noteq> p"
  proof -
    have sub: "set (layer_nodes ?s1) \<subseteq> set (layer_nodes s)"
      by (auto simp: layer_nodes_def split: option.splits if_splits)
    have "\<forall>c \<in> set (layer_nodes ?s1). \<exists>r. comp_viewParams ?s1 c = Some r \<and> prefabPath (heap ?s1 r) \<noteq> p"
    proof
      fix c assume m: "c \<in> set (layer_nodes ?s1)"
      then have "c \<in> set (layer_nodes s)" using sub by blast
      moreover obtain r where r: "comp_viewParams s c = Some r"
        using layer_nodes_bound[OF \<open>c \<in> set (layer_nodes s)\<close>] by auto
      ultimately have "prefabPath (heap s r) \<noteq> p" using h by blast
      moreover have "comp_viewParams ?s1 c = comp_viewParams s c"
        by (simp add: comp_viewParams_def)
      ultimately show "\<exists>r. comp_viewParams ?s1 c = Some r \<and> prefabPath (heap ?s1 r) \<noteq> p"
        using r by simp
    qed
    then have "remove_loop p True (layer_nodes ?s1) ?s1 = (?s1, None)"
      by (rule remove_loop_nomatch)
    then show ?thesis using ru rc by simp
  qed
  show ?thesis using a b c d e f by blast
qed

section \<open>The layer after \<open>remove\<close>\<close>

lemma remove_loop_ids:
  "uuid (heap (fst (remove_loop p d cs s)) r) = uuid (heap s r) \<and>
   prefabPath (heap (fst (remove_loop p d cs s)) r) = prefabPath (heap s r) \<and>
   node (heap (fst (remove_loop p d cs s)) r) = node (heap s r)"
  by (induction cs arbitrary: s) (auto split: option.splits)

lemma remove_loop_comp [simp]:
  "comp_viewParams (fst (remove_loop p d cs s)) n = comp_viewParams s n"
  by (induction cs arbitrary: s) (auto split: option.splits)

lemma remove_loop_stays_invalid:
  "\<not> valid (heap s r) \<Longrightarrow> \<not> valid (heap (fst (remove_loop p d cs s)) r)"
  by (induction cs arbitrary: s) (auto split: option.splits)

lemma remove_loop_valid_mono:
  "valid (heap (fst (remove_loop p d cs s)) r) \<Longrightarrow> valid (heap s r)"
  using remove_loop_stays_invalid by blast

lemma remove_loop_invalidates:
  assumes "c \<in> set cs" "comp_viewParams s c = Some r" "prefabPath (heap s r) = p"
    and "\<forall>c \<in> set cs. comp_viewParams s c \<noteq> None"
  shows "\<not> valid (heap (fst (remove_loop p d cs s)) r)"
  using assms
proof (induction cs arbitrary: s)
  case Nil
  then show ?case by simp
next
  case (Cons c' cs)
  obtain r' where r': "comp_viewParams s c' = Some r'" using Cons.prems(4) by auto
  show ?case
  proof (cases "prefabPath (heap s r') = p")
    case True
    let ?s1 = "remove_match c' r' d s"
    show ?thesis
    proof (cases "c = c'")
      case True
      then have "r' = r" using r' Cons.prems(2) by simp
      then have "\<not> valid (heap ?s1 r)" by simp
      then have "\<not> valid (heap (fst (remove_loop p d cs ?s1)) r)"
        using remove_loop_valid_mono by blast
      then show ?thesis using r' \<open>prefabPath (heap s r') = p\<close> by simp
    next
      case False
      then have m: "c \<in> set cs" using Cons.prems(1) by simp
      have "\<not> valid (heap (fst (remove_loop p d cs ?s1)) r)"
        using m Cons.prems(2,3,4) by (intro Cons.IH) auto
      then show ?thesis using r' True by simp
    qed
  next
    case False
    then have "c \<noteq> c'" using r' Cons.prems(2,3) by auto
    then have m: "c \<in> set cs" using Cons.prems(1) by simp
    have "\<not> valid (heap (fst (remove_loop p d cs s)) r)"
      using m Cons.prems(2,3,4) by (intro Cons.IH) auto
    then show ?thesis using r' False by simp
  qed
qed

lemma remove_loop_scene_destroyed_mono:
  "\<not> destroyed (scene (fst (remove_loop p d cs s)) n) \<Longrightarrow> \<not> destroyed (scene s n)"
  using remove_loop_destroyed by blast

lemma layer_nodes_iff:
  "c \<in> set (layer_nodes s) \<longleftrightarrow>
     c \<in> set (children s) \<and> \<not> destroyed (scene s c) \<and>
     (\<exists>r. comp_viewParams s c = Some r \<and> valid (heap s r))"
  by (auto simp: layer_nodes_def comp_viewParams_def split: option.splits)

lemma remove_loop_no_match_left:
  assumes "c \<in> set (layer_nodes (fst (remove_loop p d (layer_nodes s) s)))"
    and "comp_viewParams s c = Some r"
  shows "prefabPath (heap s r) \<noteq> p \<and> c \<in> set (layer_nodes s)"
proof -
  let ?s' = "fst (remove_loop p d (layer_nodes s) s)"
  have a: "c \<in> set (children ?s')" "\<not> destroyed (scene ?s' c)" "valid (heap ?s' r)"
    using assms by (auto simp: layer_nodes_iff)
  have m: "c \<in> set (layer_nodes s)"
    using a remove_loop_children[of p d "layer_nodes s" s] remove_loop_destroyed[of s c p d "layer_nodes s"]
      remove_loop_valid_mono[of p d "layer_nodes s" s r] assms(2)
    by (auto simp: layer_nodes_iff)
  have "prefabPath (heap s r) \<noteq> p"
  proof
    assume "prefabPath (heap s r) = p"
    with m assms(2) have "\<not> valid (heap ?s' r)"
      by (intro remove_loop_invalidates) (auto simp: layer_nodes_bound)
    with a(3) show False by simp
  qed
  then show ?thesis using m by simp
qed

lemma get_loop_empty:
  "\<forall>c \<in> set cs. \<exists>r. comp_viewParams s c = Some r \<and> prefabPath (heap s r) \<noteq> p \<Longrightarrow>
   get_loop p cs s = Inr []"
  by (induction cs) auto

lemma has_loop_iff:
  "\<forall>c \<in> set cs. comp_viewParams s c \<noteq> None \<Longrightarrow>
   has_loop key cs s =
     Inr (\<exists>c \<in> set cs. \<exists>r. comp_viewParams s c = Some r \<and>
            (uuid (heap s r) = key \<or> prefabPath (heap s r) = key))"
  by (induction cs) auto

lemma has_iff:
  "has key s = Inr (\<exists>c \<in> set (layer_nodes s). \<exists>r. comp_viewParams s c = Some r \<and>
            (uuid (heap s r) = key \<or> prefabPath (heap s r) = key))"
  unfolding has_def by (rule has_loop_iff) (simp add: layer_nodes_bound)

lemma after_remove_loop:
  fixes s p d
  defines "s' \<equiv> fst (remove_loop p d (layer_nodes s) s)"
  shows "get_nodes p s' = Inr []"
    and "has p s' = Inr True \<Longrightarrow>
           \<exists>c \<in> set (layer_nodes s). \<exists>r. comp_viewParams s c = Some r \<and>
              uuid (heap s r) = p \<and> prefabPath (heap s r) \<noteq> p"
proof -
  have nm: "\<exists>r. comp_viewParams s' c = Some r \<and> prefabPath (heap s' r) \<noteq> p \<and>
               comp_viewParams s c = Some r \<and> prefabPath (heap s r) \<noteq> p \<and> c \<in> set (layer_nodes s) \<and>
               uuid (heap s' r) = uuid (heap s r)"
    if mem: "c \<in> set (layer_nodes s')" for c
  proof -
    obtain r where r: "comp_viewParams s' c = Some r"
      using layer_nodes_bound[OF mem] by auto
    then have r0: "comp_viewParams s c = Some r" by (simp add: s'_def)
    from remove_loop_no_match_left[OF mem[unfolded s'_def] r0]
    show ?thesis using r r0 remove_loop_ids[of p d "layer_nodes s" s r] by (simp add: s'_def)
  qed
  show "get_nodes p s' = Inr []"
    unfolding get_nodes_def by (rule get_loop_empty) (use nm in blast)
  show "\<exists>c \<in> set (layer_nodes s). \<exists>r. comp_viewParams s c = Some r \<and>
              uuid (heap s r) = p \<and> prefabPath (heap s r) \<noteq> p" if hs: "has p s' = Inr True"
  proof -
    from hs obtain c r where c: "c \<in> set (layer_nodes s')" "comp_viewParams s' c = Some r"
      "uuid (heap s' r) = p \<or> prefabPath (heap s' r) = p"
      by (auto simp: has_iff)
    from nm[OF c(1)] c(2,3) show ?thesis by auto
  qed
qed

section \<open>Records, visuals and requests in every run\<close>

lemma linked_init: "linked (init n d)"
  by (simp add: linked_def init_def comp_viewParams_def new_ViewParams_def)

lemma linked_delegate_remove: "linked s \<Longrightarrow> linked (delegate_remove n d s)"
  by (simp add: linked_def delegate_remove_def Let_def comp_viewParams_def)

lemma linked_set_parent: "linked s \<Longrightarrow> linked (set_parent n s)"
  by (simp add: linked_def set_parent_def comp_viewParams_def)

lemma linked_valid_upd:
  "linked s \<Longrightarrow> (\<not> b \<longrightarrow> node (heap s r) \<noteq> None) \<Longrightarrow>
   linked (s\<lparr>heap := (heap s)(r := (heap s r)\<lparr>valid := b\<rparr>)\<rparr>)"
  by (auto simp: linked_def comp_viewParams_def)

lemma linked_createNode: "linked s \<Longrightarrow> linked (fst (createNode vp s))"
  unfolding createNode_def Let_def delegate_add_def
  by (auto split: option.splits intro!: linked_set_parent linked_valid_upd)

lemma linked_ui_nodes: "linked (s\<lparr>ui_nodes := m\<rparr>) = linked s"
  by (simp add: linked_def comp_viewParams_def)

lemma linked_logs: "linked (s\<lparr>logs := l\<rparr>) = linked s"
  by (simp add: linked_def comp_viewParams_def)

lemma linked_ui_cache_delete: "linked s \<Longrightarrow> linked (s\<lparr>ui_cache := AList.delete k (ui_cache s)\<rparr>)"
  by (auto simp: linked_def comp_viewParams_def dest!: in_delete_D)

lemma linked_ui_cache_update:
  "linked s \<Longrightarrow> node (heap s r) \<noteq> None \<Longrightarrow> linked (s\<lparr>ui_cache := AList.update k r (ui_cache s)\<rparr>)"
  by (auto simp: linked_def comp_viewParams_def dest!: in_update_D)

lemma linked_removeCache: "linked s \<Longrightarrow> linked (fst (removeCache p s))"
  by (auto simp: linked_def removeCache_def Let_def delegate_remove_def comp_viewParams_def
        split: option.splits dest!: in_delete_D)

lemma linked_removeByUuid: "linked s \<Longrightarrow> linked (fst (removeByUuid k d s))"
  by (auto simp: linked_def removeByUuid_def Let_def delegate_remove_def comp_viewParams_def
        split: option.splits)

lemma linked_remove_match:
  assumes "linked s" "comp_viewParams s c = Some vp"
  shows "linked (remove_match c vp d s)"
proof -
  have n: "node (heap s vp) = Some c" using assms by (simp add: linked_def)
  show ?thesis
    using assms(1) n
    by (auto simp: linked_def remove_match_def Let_def delegate_remove_def comp_viewParams_def
          dest!: in_update_D)
qed

lemma linked_remove_loop: "linked s \<Longrightarrow> linked (fst (remove_loop p d cs s))"
proof (induction cs arbitrary: s)
  case Nil
  then show ?case by simp
next
  case (Cons c cs)
  show ?case
  proof (cases "comp_viewParams s c")
    case None
    then show ?thesis using Cons.prems by simp
  next
    case (Some vp)
    have "linked (remove_match c vp d s)" using Cons.prems Some by (rule linked_remove_match)
    from Cons.IH[OF this] Cons.IH[OF Cons.prems] show ?thesis using Some by simp
  qed
qed

lemma linked_remove_ui: "linked s \<Longrightarrow> linked (fst (remove_ui p d s))"
  using linked_removeCache[of s p] linked_remove_loop
  by (auto simp: remove_ui_def split: prod.splits option.splits if_splits)


lemma linked_clear_nodes_loop:
  assumes "linked s"
    and "\<forall>(k, v) \<in> set es. map_of (ui_nodes s) k = None \<or>
            (map_of (ui_nodes s) k = Some v \<and> uuid (heap s v) = k)"
  shows "linked (fst (clear_nodes_loop es d s))"
  using assms
proof (induction es arbitrary: s)
  case Nil
  then show ?case by simp
next
  case (Cons e es)
  obtain k v where e: "e = (k, v)" by (cases e)
  have tl: "\<forall>(k, v) \<in> set es. map_of (ui_nodes s) k = None \<or>
            (map_of (ui_nodes s) k = Some v \<and> uuid (heap s v) = k)"
    using Cons.prems(2) by simp
  show ?case
  proof (cases "map_of (ui_nodes s) k = None")
    case True
    then show ?thesis using e Cons.IH[OF Cons.prems(1) tl] by simp
  next
    case False
    then have hd: "map_of (ui_nodes s) k = Some v" "uuid (heap s v) = k"
      using Cons.prems(2) e by auto
    obtain s1 x where rb: "removeByUuid k d s = (s1, x)" by (cases "removeByUuid k d s")
    have l1: "linked s1" using linked_removeByUuid[OF Cons.prems(1), of k d] rb by simp
    show ?thesis
    proof (cases x)
      case (Some err)
      then show ?thesis using e hd rb l1 by simp
    next
      case None
      note eff = removeByUuid_effect[OF hd rb[unfolded None]]
      let ?s2 = "s1\<lparr>heap := (heap s1)(v := (heap s1 v)\<lparr>valid := False\<rparr>)\<rparr>"
      have l2: "linked ?s2" using l1 eff by (intro linked_valid_upd) auto
      have p2: "\<forall>(k, v) \<in> set es. map_of (ui_nodes ?s2) k = None \<or>
            (map_of (ui_nodes ?s2) k = Some v \<and> uuid (heap ?s2 v) = k)"
        using tl eff by (auto simp: delete_conv')
      from Cons.IH[OF l2 p2] show ?thesis using e hd rb None by simp
    qed
  qed
qed

lemma linked_clear_cache_loop: "linked s \<Longrightarrow> linked (fst (clear_cache_loop es s))"
proof (induction es arbitrary: s)
  case Nil
  then show ?case by simp
next
  case (Cons e es)
  obtain k v where e: "e = (k, v)" by (cases e)
  obtain s1 r where rb: "removeCache k s = (s1, r)" by (cases "removeCache k s")
  have w1: "linked s1" using linked_removeCache[OF Cons.prems, of k] rb by simp
  show ?case
  proof (cases "map_of (ui_cache s) k = None")
    case True
    then show ?thesis using e Cons by simp
  next
    case False
    show ?thesis
    proof (cases r)
      case None
      from Cons.IH[OF w1] show ?thesis using e rb None by (simp add: False)
    next
      case (Some x)
      then show ?thesis using e rb w1 by (simp add: False)
    qed
  qed
qed

lemma wf_entries:
  "wf s \<Longrightarrow> \<forall>(k, v) \<in> set (ui_nodes s). map_of (ui_nodes s) k = None \<or>
            (map_of (ui_nodes s) k = Some v \<and> uuid (heap s v) = k)"
  using wf_lookup by blast

lemma linked_clear: "wf s \<Longrightarrow> linked s \<Longrightarrow> linked (fst (clear d s))"
proof -
  assume w: "wf s" and l: "linked s"
  obtain s1 r where lp: "clear_nodes_loop (ui_nodes s) d s = (s1, r)"
    by (cases "clear_nodes_loop (ui_nodes s) d s")
  have l1: "linked s1" using linked_clear_nodes_loop[OF l wf_entries[OF w], of d] lp by simp
  have l2: "linked (s1\<lparr>ui_nodes := []\<rparr>)" using l1 by (simp add: linked_ui_nodes)
  show ?thesis
    using lp l1 l2 linked_clear_cache_loop[OF l2, of "ui_cache s1"]
    by (cases r) (simp_all add: clear_def Let_def)
qed

lemma linked_request:
  "linked s \<Longrightarrow> node (heap s r) = None \<Longrightarrow> r \<notin> (\<lambda>q. snd (snd q)) ` set (pending s) \<Longrightarrow>
   linked (s\<lparr>pending := pending s @ [(b, p, r)]\<rparr>)"
  by (auto simp: linked_def comp_viewParams_def)

lemma linked_load:
  assumes "linked s" "map_of (ui_nodes s) (uuid (heap s r)) = Some r"
    and "node (heap s r) = None \<longrightarrow> r \<notin> (\<lambda>q. snd (snd q)) ` set (pending s)"
  shows "linked (fst (load r b s))"
  using assms by (auto simp: load_def Let_def linked_request linked_createNode)

lemma linked_alloc:
  assumes "wf s" "linked s"
  shows "linked (s\<lparr>next_ref := Suc (next_ref s),
              ui_nodes := AList.update k (next_ref s) (ui_nodes s),
              heap := (heap s)(next_ref s := new_ViewParams\<lparr>uuid := k, prefabPath := p,
                 params := a, callbacks := b, valid := True\<rparr>)\<rparr>)"
proof -
  have b1: "\<forall>q \<in> set (pending s). snd (snd q) \<noteq> next_ref s"
    using assms(1) by (fastforce simp: wf_def)
  have b2: "\<forall>q \<in> set (ui_cache s). snd q \<noteq> next_ref s"
    using assms(1) by (fastforce simp: wf_def)
  have b3: "\<forall>n. comp_viewParams s n \<noteq> Some (next_ref s)"
    using assms(1) by (fastforce simp: wf_def)
  have n: "node (heap s (next_ref s)) = None"
    using assms(2) b3 by (metis linked_def not_Some_eq)
  show ?thesis
    using assms(2) b1 b2 b3 n
    unfolding linked_def comp_viewParams_def
    by (auto simp: new_ViewParams_def split: option.splits)
qed

lemma linked_claim:
  "linked s \<Longrightarrow> linked (s\<lparr>heap := (heap s)(r := (heap s r)\<lparr>params := a, callbacks := b, valid := True\<rparr>)\<rparr>)"
  by (auto simp: linked_def comp_viewParams_def)

lemma linked_add:
  assumes w: "wf s" and l: "linked s"
  shows "linked (fst (add config p c s))"
proof -
  let ?k = "getUuid s (prefab config)"
  show ?thesis
  proof (cases "map_of (ui_nodes s) ?k")
    case None
    let ?s2 = "s\<lparr>next_ref := Suc (next_ref s),
              ui_nodes := AList.update ?k (next_ref s) (ui_nodes s),
              heap := (heap s)(next_ref s := new_ViewParams\<lparr>uuid := ?k, prefabPath := prefab config,
                 params := nullish p, callbacks := nullish c, valid := True\<rparr>)\<rparr>"
    have l2: "linked ?s2" using w l by (rule linked_alloc)
    have "\<forall>q \<in> set (pending s). snd (snd q) < next_ref s"
      using w by (auto simp: wf_def)
    then have fresh: "node (heap ?s2 (next_ref s)) = None \<longrightarrow>
        next_ref s \<notin> (\<lambda>q. snd (snd q)) ` set (pending ?s2)"
      by auto
    have second: "map_of (ui_nodes ?s2) (uuid (heap ?s2 (next_ref s))) = Some (next_ref s)"
      by (simp add: update_conv')
    have "linked (fst (load (next_ref s) (bundleName config) ?s2))"
      using l2 second fresh by (rule linked_load)
    then show ?thesis using None by (simp add: add_def Let_def)
  next
    case (Some vp)
    show ?thesis
    proof (cases "valid (heap s vp)")
      case True
      then show ?thesis using Some l by (simp add: add_def Let_def linked_logs)
    next
      case False
      let ?s2 = "s\<lparr>heap := (heap s)(vp := (heap s vp)\<lparr>params := nullish p, callbacks := nullish c, valid := True\<rparr>)\<rparr>"
      have l2: "linked ?s2" using l by (rule linked_claim)
      have u: "uuid (heap s vp) = ?k" using w map_of_SomeD[OF Some] by (auto simp: wf_def)
      have n: "node (heap s vp) \<noteq> None" using l False by (auto simp: linked_def)
      have third: "node (heap ?s2 vp) = None \<longrightarrow> vp \<notin> (\<lambda>q. snd (snd q)) ` set (pending ?s2)"
        by (simp add: n)
      have second: "map_of (ui_nodes ?s2) (uuid (heap ?s2 vp)) = Some vp"
        using u Some by simp
      have "linked (fst (load vp (bundleName config) ?s2))"
        using l2 second third by (rule linked_load)
      then show ?thesis using Some False by (simp add: add_def Let_def)
    qed
  qed
qed

lemma distinct_drop_nth:
  assumes "distinct (map f xs)" "i < length xs"
  shows "distinct (map f (take i xs @ drop (Suc i) xs)) \<and>
         f (xs ! i) \<notin> f ` set (take i xs @ drop (Suc i) xs)"
proof -
  have "xs = take i xs @ xs ! i # drop (Suc i) xs" using assms(2) by (rule id_take_nth_drop)
  then have "distinct (map f (take i xs @ xs ! i # drop (Suc i) xs))" using assms(1) by simp
  then show ?thesis by auto
qed

lemma linked_pending_sub:
  assumes "linked s" "set ps \<subseteq> set (pending s)" "distinct (map (\<lambda>q. snd (snd q)) ps)"
  shows "linked (s\<lparr>pending := ps\<rparr>)"
proof -
  have "\<forall>(b, p, x) \<in> set (pending s). node (heap s x) = None"
    using assms(1) by (simp add: linked_def)
  then have "\<forall>(b, p, x) \<in> set ps. node (heap s x) = None"
    using assms(2) by blast
  then show ?thesis
    using assms(1,3) by (simp add: linked_def comp_viewParams_def)
qed

lemma linked_drop_request:
  assumes "linked s" "i < length (pending s)"
  shows "linked (s\<lparr>pending := take i (pending s) @ drop (Suc i) (pending s)\<rparr>) \<and>
         node (heap s (snd (snd (pending s ! i)))) = None \<and>
         snd (snd (pending s ! i)) \<notin> (\<lambda>q. snd (snd q)) ` set (take i (pending s) @ drop (Suc i) (pending s))"
proof -
  have d: "distinct (map (\<lambda>q. snd (snd q)) (pending s))" using assms(1) by (simp add: linked_def)
  note dd = distinct_drop_nth[OF d assms(2)]
  have m: "pending s ! i \<in> set (pending s)" using assms(2) by simp
  have "\<forall>q \<in> set (pending s). node (heap s (snd (snd q))) = None"
    using assms(1) by (auto simp: linked_def)
  then have n: "node (heap s (snd (snd (pending s ! i)))) = None" using m by blast
  have sub: "set (take i (pending s) @ drop (Suc i) (pending s)) \<subseteq> set (pending s)"
    by (auto dest: in_set_takeD in_set_dropD)
  have "linked (s\<lparr>pending := take i (pending s) @ drop (Suc i) (pending s)\<rparr>)"
    using assms(1) sub conjunct1[OF dd] by (rule linked_pending_sub)
  then show ?thesis using n conjunct2[OF dd] by blast
qed

lemma linked_bind:
  assumes l: "linked s" and nn: "node (heap s r) = None"
    and np: "r \<notin> (\<lambda>q. snd (snd q)) ` set (pending s)"
  shows "linked (s\<lparr>next_node := Suc (next_node s),
       heap := (heap s)(r := (heap s r)\<lparr>node := Some (next_node s)\<rparr>),
       scene := (scene s)(next_node s := \<lparr>component = Some \<lparr>viewParams = Some r\<rparr>, destroyed = False\<rparr>)\<rparr>)"
    (is "linked ?s4")
proof -
  have j1: "\<And>x. node (heap s x) = None \<Longrightarrow> valid (heap s x)"
    and j2: "\<And>q. q \<in> set (pending s) \<Longrightarrow> node (heap s (snd (snd q))) = None"
    and j3: "distinct (map (\<lambda>q. snd (snd q)) (pending s))"
    and j4: "\<And>m x. (comp_viewParams s m = Some x) = (node (heap s x) = Some m)"
    and j5: "\<And>m. next_node s \<le> m \<Longrightarrow> comp_viewParams s m = None"
    and j6: "\<And>q. q \<in> set (ui_cache s) \<Longrightarrow> node (heap s (snd q)) \<noteq> None"
    using l by (auto simp: linked_def)
  have c4: "comp_viewParams ?s4 m = (if m = next_node s then Some r else comp_viewParams s m)" for m
    by (simp add: comp_viewParams_def)
  have fresh: "node (heap s x) \<noteq> Some (next_node s)" for x
    using j5[of "next_node s"] j4[of "next_node s" x] by simp
  have a1: "\<forall>x. node (heap ?s4 x) = None \<longrightarrow> valid (heap ?s4 x)"
    using j1 by simp
  have j2': "\<forall>(b, p, x) \<in> set (pending s). node (heap s x) = None"
    using l by (simp add: linked_def)
  have a2: "\<forall>(b, p, x) \<in> set (pending ?s4). node (heap ?s4 x) = None"
    using j2' np by force
  have a3: "distinct (map (\<lambda>q. snd (snd q)) (pending ?s4))" using j3 by simp
  have a4: "\<forall>m x. (comp_viewParams ?s4 m = Some x) = (node (heap ?s4 x) = Some m)"
  proof (intro allI)
    fix m x
    show "(comp_viewParams ?s4 m = Some x) = (node (heap ?s4 x) = Some m)"
    proof (cases "m = next_node s")
      case True
      show ?thesis
      proof (cases "x = r")
        case True
        then show ?thesis using \<open>m = next_node s\<close> by (simp add: c4)
      next
        case False
        then show ?thesis using \<open>m = next_node s\<close> fresh[of x] by (simp add: c4)
      qed
    next
      case False
      show ?thesis
      proof (cases "x = r")
        case True
        have "comp_viewParams s m \<noteq> Some r" using j4[of m r] nn by simp
        then show ?thesis using True \<open>m \<noteq> next_node s\<close> by (simp add: c4)
      next
        case xr: False
        then show ?thesis using False j4[of m x] by (simp add: c4)
      qed
    qed
  qed
  have a5: "\<forall>m. next_node ?s4 \<le> m \<longrightarrow> comp_viewParams ?s4 m = None"
    using j5 by (simp add: c4)
  have j6': "\<forall>(p, x) \<in> set (ui_cache s). node (heap s x) \<noteq> None"
    using l by (simp add: linked_def)
  have a6: "\<forall>(p, x) \<in> set (ui_cache ?s4). node (heap ?s4 x) \<noteq> None"
    using j6' by auto
  show ?thesis
    unfolding linked_def using a1 a2 a3 a4 a5 a6 by blast
qed


lemma linked_load_callback:
  assumes "linked s" "node (heap s r) = None" "r \<notin> (\<lambda>q. snd (snd q)) ` set (pending s)"
  shows "linked (fst (load_callback r err inst s))"
proof -
  define s1 where "s1 = (case err of None \<Rightarrow> s | Some e \<Rightarrow> s\<lparr>logs := logs s @ [LogError e]\<rparr>)"
  let ?s4 = "s1\<lparr>next_node := Suc (next_node s1),
       heap := (heap s1)(r := (heap s1 r)\<lparr>node := Some (next_node s1)\<rparr>),
       scene := (scene s1)(next_node s1 := \<lparr>component = Some \<lparr>viewParams = Some r\<rparr>, destroyed = False\<rparr>)\<rparr>"
  have l1: "linked s1" "heap s1 = heap s" "pending s1 = pending s"
    using assms(1) by (auto simp: s1_def linked_logs split: option.splits)
  have l4: "linked ?s4"
    using l1 assms(2,3) by (intro linked_bind) simp_all
  have "fst (load_callback r err inst s) = (if inst then fst (createNode r ?s4) else s1)"
    by (simp add: load_callback_def Let_def s1_def)
  then show ?thesis using l1 l4 linked_createNode[of ?s4 r] by simp
qed

lemma linked_complete: "linked s \<Longrightarrow> linked (fst (complete i err inst s))"
proof (cases "i < length (pending s)")
  case True
  assume l: "linked s"
  note d = linked_drop_request[OF l True]
  have "linked (fst (load_callback (snd (snd (pending s ! i))) err inst
          (s\<lparr>pending := take i (pending s) @ drop (Suc i) (pending s)\<rparr>)))"
    using d by (intro linked_load_callback) simp_all
  then show ?thesis using True by (simp add: complete_def)
next
  case False
  assume "linked s"
  then show ?thesis using False by (simp add: complete_def)
qed



lemma inv_step: "inv s \<Longrightarrow> inv (step e s)"
  by (cases e)
    (simp_all add: inv_def wf_add wf_remove_ui wf_clear wf_complete
       linked_add linked_remove_ui linked_clear linked_complete)

lemma inv_exec: "inv s \<Longrightarrow> inv (exec es s)"
  unfolding exec_def by (induction es arbitrary: s) (simp_all add: inv_step)

lemma inv_reachable: "inv (exec es (init n d))"
  by (rule inv_exec) (simp add: inv_def wf_init linked_init)

section \<open>Late completions and records in both maps\<close>

lemma replace_slash_neq: "replace_slash (n @ CHR ''_'' # p) \<noteq> p"
  using getUuid_neq_path[of "\<lparr>name = n, ui_nodes = [], ui_cache = [], children = [], heap = undefined, next_ref = 0, scene = undefined, next_node = 0, pending = [], logs = [], defaultBundleName = []\<rparr>" p]
  by (simp add: getUuid_def)

text \<open>Claim C1 says that after \<open>add\<close>, the load and a non-destructive \<open>remove\<close>,
  \<open>has\<close> still answers true. On the layer \<open>Dialog\<close> with \<open>ui/Confirm\<close> it does not.\<close>

theorem has_after_remove_counterexample:
  "has ''ui/Confirm'' (exec cached_run (init ''Dialog'' ''resources'')) \<noteq> Inr True"
  by (simp add: run_defs)

text \<open>Claim C6, as the code has it: the callback of a load never looks the record up. When
  \<open>instantiate\<close> returns, the new node is bound to the record of the request, attached
  under the layer and reported by \<open>__nodes\<close>, and the record is valid, whether or not
  \<open>ui_nodes\<close> still holds the record; \<open>ui_nodes\<close> is left as it is.\<close>

theorem late_completion_attaches:
  assumes "i < length (pending s)"
  shows "snd (complete i err True s) = None \<and>
         next_node s \<in> set (layer_nodes (fst (complete i err True s))) \<and>
         comp_viewParams (fst (complete i err True s)) (next_node s) = Some (snd (snd (pending s ! i))) \<and>
         node (heap (fst (complete i err True s)) (snd (snd (pending s ! i)))) = Some (next_node s) \<and>
         valid (heap (fst (complete i err True s)) (snd (snd (pending s ! i)))) \<and>
         ui_nodes (fst (complete i err True s)) = ui_nodes s"
  using assms
  by (cases err) (simp_all add: complete_def load_callback_def createNode_def delegate_add_def set_parent_def layer_nodes_def
      comp_viewParams_def Let_def)

theorem late_completion_attaches_witness:
  "0 < length (pending (exec orphan_run (init ''Dialog'' ''resources''))) \<and>
   snd (snd (pending (exec orphan_run (init ''Dialog'' ''resources'')) ! 0)) = 1 \<and>
   1 \<notin> snd ` set (ui_nodes (exec orphan_run (init ''Dialog'' ''resources''))) \<and>
   next_node (exec orphan_run (init ''Dialog'' ''resources'')) = 1 \<and>
   1 \<in> set (layer_nodes (fst (complete 0 None True (exec orphan_run (init ''Dialog'' ''resources''))))) \<and>
   valid (heap (fst (complete 0 None True (exec orphan_run (init ''Dialog'' ''resources'')))) 1)"
proof -
  let ?s = "exec orphan_run (init ''Dialog'' ''resources'')"
  have h: "0 < length (pending ?s)" by (simp add: run_defs)
  have v: "snd (snd (pending ?s ! 0)) = 1" "ui_nodes ?s = []" "next_node ?s = 1"
    by (simp_all add: run_defs)
  show ?thesis
    using late_completion_attaches[OF h, of None] h v by simp
qed

text \<open>Claim C6 says that a load completing after its record has left \<open>ui_nodes\<close> discards
  the new visual. In the run \<open>orphan_run\<close> the second record is pending when the
  destructive \<open>remove\<close> evicts the cached first record and deletes the shared identifier
  from \<open>ui_nodes\<close>; the completion then attaches node \<open>1\<close> all the same.\<close>

theorem orphan_counterexample:
  "ui_nodes (exec orphan_run (init ''Dialog'' ''resources'')) = [] \<and>
   pending (exec orphan_run (init ''Dialog'' ''resources'')) = [(''resources'', ''ui/Confirm'', 1)] \<and>
   children (exec orphan_run (init ''Dialog'' ''resources'')) = [] \<and>
   snd (complete 0 None True (exec orphan_run (init ''Dialog'' ''resources''))) = None \<and>
   children (fst (complete 0 None True (exec orphan_run (init ''Dialog'' ''resources'')))) = [1] \<and>
   has ''ui/Confirm'' (fst (complete 0 None True (exec orphan_run (init ''Dialog'' ''resources'')))) = Inr True"
  by (simp add: run_defs)

text \<open>Claim C2 says that no record is in \<open>ui_nodes\<close> and in \<open>ui_cache\<close> at once. After
  \<open>add\<close>, the load and a non-destructive \<open>remove\<close>, record \<open>0\<close> is in both.\<close>

theorem both_maps_counterexample:
  "(''Dialog_ui_Confirm'', 0) \<in> set (ui_nodes (exec cached_run (init ''Dialog'' ''resources''))) \<and>
   (''ui/Confirm'', 0) \<in> set (ui_cache (exec cached_run (init ''Dialog'' ''resources'')))"
  by (simp add: run_defs)

lemma remove_loop_keep_ui_nodes:
  "ui_nodes (fst (remove_loop p False cs s)) = ui_nodes s"
  by (induction cs arbitrary: s) (auto split: option.splits)

lemma remove_keep_ui_nodes: "ui_nodes (fst (remove_ui p False s)) = ui_nodes s"
  by (simp add: remove_ui_def remove_loop_keep_ui_nodes)

lemma filter_value_le1:
  assumes "distinct (map fst m)" "\<forall>(k, r) \<in> set m. f r = k"
  shows "length (filter (\<lambda>e. snd e = r) m) \<le> 1"
  using assms
proof (induction m)
  case Nil
  then show ?case by simp
next
  case (Cons e m)
  obtain k v where e: "e = (k, v)" by (cases e)
  show ?case
  proof (cases "v = r")
    case True
    have "filter (\<lambda>e. snd e = r) m = []"
    proof (rule ccontr)
      assume "filter (\<lambda>e. snd e = r) m \<noteq> []"
      then obtain k' where m: "(k', r) \<in> set m"
        by (auto simp: filter_empty_conv)
      then have "k' = f r" using Cons.prems(2) by auto
      moreover have "k = f r" using Cons.prems(2) e True by auto
      ultimately show False using Cons.prems(1) e m by force
    qed
    then show ?thesis using e True by simp
  next
    case False
    then show ?thesis using Cons e by simp
  qed
qed

text \<open>Claim C2, as the code has it: in every reachable state neither map has a key twice,
  \<open>ui_nodes\<close> holds a record under its own \<open>uuid\<close> and \<open>ui_cache\<close> under its own
  \<open>prefabPath\<close>, so a record fills at most one entry of each map; it can fill one of
  each at once, since a non-destructive \<open>remove\<close> leaves \<open>ui_nodes\<close> as it is.\<close>

theorem record_slots:
  assumes "s = exec es (init layerName dflt)"
  shows "distinct (map fst (ui_nodes s)) \<and> distinct (map fst (ui_cache s)) \<and>
         (\<forall>(k, r) \<in> set (ui_nodes s). uuid (heap s r) = k) \<and>
         (\<forall>(p, r) \<in> set (ui_cache s). prefabPath (heap s r) = p) \<and>
         (\<forall>r. length (filter (\<lambda>e. snd e = r) (ui_nodes s)) \<le> 1 \<and>
              length (filter (\<lambda>e. snd e = r) (ui_cache s)) \<le> 1) \<and>
         (\<forall>p. ui_nodes (fst (remove_ui p False s)) = ui_nodes s)"
proof -
  have w: "wf s" using assms by (simp add: wf_reachable)
  have a: "distinct (map fst (ui_nodes s))" "distinct (map fst (ui_cache s))"
    using w by (simp_all add: wf_def)
  have b: "\<forall>(k, r) \<in> set (ui_nodes s). uuid (heap s r) = k"
    using w by (auto simp: wf_def)
  have c: "\<forall>(p, r) \<in> set (ui_cache s). prefabPath (heap s r) = p"
    using w by (auto simp: wf_def)
  have d: "length (filter (\<lambda>e. snd e = r) (ui_nodes s)) \<le> 1" for r
    using a(1) b by (rule filter_value_le1[where f = "\<lambda>r. uuid (heap s r)"])
  have e: "length (filter (\<lambda>e. snd e = r) (ui_cache s)) \<le> 1" for r
    using a(2) c by (rule filter_value_le1[where f = "\<lambda>r. prefabPath (heap s r)"])
  show ?thesis using a b c d e remove_keep_ui_nodes by blast
qed

theorem record_slots_witness:
  "ui_nodes (exec cached_run (init ''Dialog'' ''resources'')) = [(''Dialog_ui_Confirm'', 0)] \<and>
   ui_cache (exec cached_run (init ''Dialog'' ''resources'')) = [(''ui/Confirm'', 0)] \<and>
   uuid (heap (exec cached_run (init ''Dialog'' ''resources'')) 0) = ''Dialog_ui_Confirm'' \<and>
   prefabPath (heap (exec cached_run (init ''Dialog'' ''resources'')) 0) = ''ui/Confirm'' \<and>
   length (filter (\<lambda>e. snd e = 0) (ui_nodes (exec cached_run (init ''Dialog'' ''resources'')))) \<le> 1"
proof -
  have m: "ui_nodes (exec cached_run (init ''Dialog'' ''resources'')) = [(''Dialog_ui_Confirm'', 0)]"
    "ui_cache (exec cached_run (init ''Dialog'' ''resources'')) = [(''ui/Confirm'', 0)]"
    by (simp_all add: run_defs)
  show ?thesis
    using record_slots[OF refl, of cached_run "''Dialog''" "''resources''"] m by simp
qed

section \<open>Removal, the fast path and failed loads in every run\<close>

lemma linked_visual:
  assumes "linked s" "node (heap s r) = Some n"
  shows "\<exists>dc. component (scene s n) = Some dc"
proof -
  have "comp_viewParams s n = Some r" using assms by (simp add: linked_def)
  then show ?thesis by (auto simp: comp_viewParams_def split: option.splits)
qed

lemma linked_cached:
  assumes "linked s" "map_of (ui_cache s) p = Some vp"
  shows "\<exists>n dc. node (heap s vp) = Some n \<and> component (scene s n) = Some dc"
proof -
  have "(p, vp) \<in> set (ui_cache s)" using assms(2) by (rule map_of_SomeD)
  then have "node (heap s vp) \<noteq> None" using assms(1) by (auto simp: linked_def)
  then obtain n where n: "node (heap s vp) = Some n" by auto
  with linked_visual[OF assms(1) n] show ?thesis by blast
qed

lemma removeCache_no_throw: "linked s \<Longrightarrow> snd (removeCache p s) = None"
  using linked_cached[of s p]
  by (cases "map_of (ui_cache s) p") (auto simp: removeCache_def Let_def)

lemma removeCache_frame:
  "heap (fst (removeCache p s)) = heap s"
  "comp_viewParams (fst (removeCache p s)) c = comp_viewParams s c"
  "set (children (fst (removeCache p s))) \<subseteq> set (children s)"
  "destroyed (scene s c) \<Longrightarrow> destroyed (scene (fst (removeCache p s)) c)"
  by (auto simp: removeCache_def Let_def delegate_remove_def comp_viewParams_def split: option.splits)

lemma removeCache_cache_None:
  "snd (removeCache p s) = None \<Longrightarrow> map_of (ui_cache (fst (removeCache p s))) p = None"
  by (auto simp: removeCache_def Let_def delegate_remove_def delete_conv' split: option.splits)

lemma removeCache_layer_nodes:
  "set (layer_nodes (fst (removeCache p s))) \<subseteq> set (layer_nodes s)"
  using removeCache_frame[where p = p and s = s]
  by (auto simp: layer_nodes_iff)

lemma remove_ui_no_throw: "linked s \<Longrightarrow> snd (remove_ui p d s) = None"
  using removeCache_no_throw[of s p]
  by (cases "removeCache p s") (auto simp: remove_ui_def remove_loop_layer_nodes)

lemma remove_ui_eq:
  "remove_ui p False s = remove_loop p False (layer_nodes s) s"
  "snd (removeCache p s) = None \<Longrightarrow>
     remove_ui p True s = remove_loop p True (layer_nodes (fst (removeCache p s))) (fst (removeCache p s))"
  by (cases "removeCache p s"; simp add: remove_ui_def)+

lemma after_remove_ui:
  assumes "d \<longrightarrow> snd (removeCache p s) = None"
  shows "get_nodes p (fst (remove_ui p d s)) = Inr []"
    and "has p (fst (remove_ui p d s)) = Inr True \<Longrightarrow>
           \<exists>c \<in> set (layer_nodes s). \<exists>r. comp_viewParams s c = Some r \<and>
              uuid (heap s r) = p \<and> prefabPath (heap s r) \<noteq> p"
proof -
  define s1 where "s1 = (if d then fst (removeCache p s) else s)"
  have eq: "remove_ui p d s = remove_loop p d (layer_nodes s1) s1"
    using assms remove_ui_eq[where p = p and s = s] by (cases d) (simp_all add: s1_def)
  have sub: "set (layer_nodes s1) \<subseteq> set (layer_nodes s)"
    using removeCache_layer_nodes by (simp add: s1_def)
  have fr: "heap s1 = heap s" "\<And>c. comp_viewParams s1 c = comp_viewParams s c"
    by (simp_all add: s1_def removeCache_frame)
  show "get_nodes p (fst (remove_ui p d s)) = Inr []"
    unfolding eq by (rule after_remove_loop(1))
  show "\<exists>c \<in> set (layer_nodes s). \<exists>r. comp_viewParams s c = Some r \<and>
              uuid (heap s r) = p \<and> prefabPath (heap s r) \<noteq> p"
    if "has p (fst (remove_ui p d s)) = Inr True"
    using after_remove_loop(2)[where s = s1 and p = p and d = d] that sub fr unfolding eq by auto
qed

lemma remove_loop_deletes:
  assumes "c \<in> set cs" "comp_viewParams s c = Some r" "prefabPath (heap s r) = p"
    and "\<forall>c \<in> set cs. comp_viewParams s c \<noteq> None"
  shows "map_of (ui_nodes (fst (remove_loop p True cs s))) (uuid (heap s r)) = None"
  using assms
proof (induction cs arbitrary: s)
  case Nil
  then show ?case by simp
next
  case (Cons c' cs)
  obtain r' where r': "comp_viewParams s c' = Some r'" using Cons.prems(4) by auto
  show ?case
  proof (cases "prefabPath (heap s r') = p")
    case True
    let ?s1 = "remove_match c' r' True s"
    show ?thesis
    proof (cases "c = c'")
      case True
      then have "r' = r" using r' Cons.prems(2) by simp
      then have "map_of (ui_nodes ?s1) (uuid (heap s r)) = None" by (simp add: delete_conv')
      then have "map_of (ui_nodes (fst (remove_loop p True cs ?s1))) (uuid (heap s r)) = None"
        by (rule remove_loop_ui_nodes_None)
      then show ?thesis using r' \<open>prefabPath (heap s r') = p\<close> by simp
    next
      case False
      then have m: "c \<in> set cs" using Cons.prems(1) by simp
      have "map_of (ui_nodes (fst (remove_loop p True cs ?s1))) (uuid (heap ?s1 r)) = None"
        using m Cons.prems(2,3,4) by (intro Cons.IH) auto
      moreover have "uuid (heap ?s1 r) = uuid (heap s r)" by simp
      ultimately show ?thesis using r' True by simp
    qed
  next
    case False
    then have "c \<noteq> c'" using r' Cons.prems(2,3) by auto
    then have m: "c \<in> set cs" using Cons.prems(1) by simp
    have "map_of (ui_nodes (fst (remove_loop p True cs s))) (uuid (heap s r)) = None"
      using m Cons.prems(2,3,4) by (intro Cons.IH) auto
    then show ?thesis using r' False by simp
  qed
qed

lemma removeCache_layer_nodes_cases:
  assumes "c \<in> set (layer_nodes s)"
  shows "c \<in> set (layer_nodes (fst (removeCache p s))) \<or>
         (\<exists>vp. map_of (ui_cache s) p = Some vp \<and> node (heap s vp) = Some c \<and>
               map_of (ui_nodes (fst (removeCache p s))) (uuid (heap s vp)) = None)"
  using assms
  by (auto simp: removeCache_def Let_def delegate_remove_def layer_nodes_iff comp_viewParams_def
        delete_conv' split: option.splits)

lemma remove_ui_destroy_frame:
  assumes "linked s"
  shows "map_of (ui_cache (fst (remove_ui p True s))) p = None"
    and "c \<in> set (layer_nodes s) \<Longrightarrow> comp_viewParams s c = Some r \<Longrightarrow>
         prefabPath (heap s r) = p \<Longrightarrow>
         map_of (ui_nodes (fst (remove_ui p True s))) (uuid (heap s r)) = None"
proof -
  let ?s1 = "fst (removeCache p s)"
  have nt: "snd (removeCache p s) = None" using assms by (rule removeCache_no_throw)
  have eq: "remove_ui p True s = remove_loop p True (layer_nodes ?s1) ?s1"
    using nt by (rule remove_ui_eq(2))
  show "map_of (ui_cache (fst (remove_ui p True s))) p = None"
    using removeCache_cache_None[OF nt] by (simp add: eq remove_loop_destroy_frame)
  show "map_of (ui_nodes (fst (remove_ui p True s))) (uuid (heap s r)) = None"
    if c: "c \<in> set (layer_nodes s)" and r: "comp_viewParams s c = Some r"
      and p: "prefabPath (heap s r) = p"
  proof -
    from removeCache_layer_nodes_cases[OF c, of p]
    show ?thesis
    proof
      assume m: "c \<in> set (layer_nodes ?s1)"
      have ne: "\<forall>c \<in> set (layer_nodes ?s1). comp_viewParams ?s1 c \<noteq> None"
        by (simp add: layer_nodes_bound)
      have r1: "comp_viewParams ?s1 c = Some r" "prefabPath (heap ?s1 r) = p"
        using r p by (simp_all add: removeCache_frame)
      have "map_of (ui_nodes (fst (remove_loop p True (layer_nodes ?s1) ?s1))) (uuid (heap ?s1 r)) = None"
        using m r1 ne by (rule remove_loop_deletes)
      then show ?thesis by (simp add: eq removeCache_frame)
    next
      assume "\<exists>vp. map_of (ui_cache s) p = Some vp \<and> node (heap s vp) = Some c \<and>
               map_of (ui_nodes ?s1) (uuid (heap s vp)) = None"
      then obtain vp where vp: "node (heap s vp) = Some c"
        "map_of (ui_nodes ?s1) (uuid (heap s vp)) = None" by blast
      have "comp_viewParams s c = Some vp" using assms vp(1) by (simp add: linked_def)
      then have "vp = r" using r by simp
      then have "map_of (ui_nodes ?s1) (uuid (heap s r)) = None" using vp(2) by simp
      then show ?thesis unfolding eq by (rule remove_loop_ui_nodes_None)
    qed
  qed
qed

lemma inv_facts:
  assumes "inv s" "map_of (ui_nodes s) k = Some r"
  shows "uuid (heap s r) = k" "r < next_ref s" "node (heap s r) = None \<Longrightarrow> valid (heap s r)"
    "\<not> valid (heap s r) \<Longrightarrow> \<exists>n dc. node (heap s r) = Some n \<and> component (scene s n) = Some dc"
proof -
  have m: "(k, r) \<in> set (ui_nodes s)" using assms(2) by (rule map_of_SomeD)
  have w: "wf s" and l: "linked s" using assms(1) by (simp_all add: inv_def)
  show "uuid (heap s r) = k" "r < next_ref s" using w m by (auto simp: wf_def)
  show j1: "valid (heap s r)" if "node (heap s r) = None" using l that by (simp add: linked_def)
  show "\<exists>n dc. node (heap s r) = Some n \<and> component (scene s n) = Some dc" if nv: "\<not> valid (heap s r)"
  proof -
    have "node (heap s r) \<noteq> None" using j1 nv by blast
    then obtain n where n: "node (heap s r) = Some n" by auto
    from linked_visual[OF l n] n show ?thesis by blast
  qed
qed

lemma add_fast_path:
  assumes "inv s" "map_of (ui_nodes s) (getUuid s (prefab config)) = Some vp" "\<not> valid (heap s vp)"
  shows "\<exists>n. node (heap s vp) = Some n \<and>
           add config p c s =
             (set_parent n (s\<lparr>heap := (heap s)(vp := (heap s vp)
                \<lparr>params := nullish p, callbacks := nullish c, valid := True\<rparr>)\<rparr>),
              Inr (getUuid s (prefab config)))"
proof -
  from inv_facts(4)[OF assms(1,2,3)] obtain n dc where
    n: "node (heap s vp) = Some n" "component (scene s n) = Some dc" by blast
  have u: "uuid (heap s vp) = getUuid s (prefab config)" using assms(1,2) by (rule inv_facts(1))
  have "add config p c s =
             (set_parent n (s\<lparr>heap := (heap s)(vp := (heap s vp)
                \<lparr>params := nullish p, callbacks := nullish c, valid := True\<rparr>)\<rparr>),
              Inr (getUuid s (prefab config)))"
    using assms(2,3) n u
    by (simp add: add_def load_def createNode_def delegate_add_def Let_def)
  then show ?thesis using n(1) by blast
qed

lemma add_stuck:
  assumes i: "inv s" and m: "map_of (ui_nodes s) k = Some r" and n: "node (heap s r) = None"
    and np: "r \<notin> refs s"
  shows "map_of (ui_nodes (fst (add config p c s))) k = Some r \<and>
         node (heap (fst (add config p c s)) r) = None \<and> r \<notin> refs (fst (add config p c s))"
proof -
  let ?key = "getUuid s (prefab config)"
  note f = inv_facts[OF i m]
  show ?thesis
  proof (cases "map_of (ui_nodes s) ?key")
    case None
    then have ne: "?key \<noteq> k" using m by auto
    have "r \<noteq> next_ref s" using f(2) by simp
    then show ?thesis using None ne m n np
      by (simp add: add_def load_def Let_def update_conv' new_ViewParams_def refs_def)
  next
    case (Some vp)
    show ?thesis
    proof (cases "valid (heap s vp)")
      case True
      then show ?thesis using Some m n np by (simp add: add_def Let_def refs_def)
    next
      case False
      then have "vp \<noteq> r" using f(3)[OF n] by auto
      from add_fast_path[OF i Some False, of p c] obtain nd where
        "add config p c s = (set_parent nd (s\<lparr>heap := (heap s)(vp := (heap s vp)
                \<lparr>params := nullish p, callbacks := nullish c, valid := True\<rparr>)\<rparr>),
              Inr (getUuid s (prefab config)))" by blast
      then show ?thesis using \<open>vp \<noteq> r\<close> m n np by (simp add: set_parent_def refs_def)
    qed
  qed
qed

lemma remove_loop_pending [simp]: "pending (fst (remove_loop p d cs s)) = pending s"
  by (induction cs arbitrary: s) (auto split: option.splits)

lemma remove_stuck:
  assumes "map_of (ui_nodes s) k = Some r" "node (heap s r) = None" "r \<notin> refs s"
  shows "map_of (ui_nodes (fst (remove_ui p False s))) k = Some r \<and>
         node (heap (fst (remove_ui p False s)) r) = None \<and> r \<notin> refs (fst (remove_ui p False s))"
  using assms remove_loop_ids[of p False "layer_nodes s" s r]
  by (simp add: remove_loop_keep_ui_nodes refs_def remove_ui_eq(1))

lemma clear_nodes_loop_keep:
  "ui_nodes (fst (clear_nodes_loop es False s)) = ui_nodes s \<and>
   pending (fst (clear_nodes_loop es False s)) = pending s \<and>
   node (heap (fst (clear_nodes_loop es False s)) r) = node (heap s r)"
proof (induction es arbitrary: s)
  case Nil
  then show ?case by simp
next
  case (Cons e es)
  obtain k v where e: "e = (k, v)" by (cases e)
  obtain s1 x where rb: "removeByUuid (uuid (heap s v)) False s = (s1, x)"
    by (cases "removeByUuid (uuid (heap s v)) False s")
  have fr: "ui_nodes s1 = ui_nodes s" "pending s1 = pending s" "heap s1 = heap s"
    using rb by (auto simp: removeByUuid_def Let_def delegate_remove_def split: option.splits)
  show ?case
  proof (cases "map_of (ui_nodes s) k = None")
    case True
    then show ?thesis using e Cons.IH[of s] by simp
  next
    case False
    show ?thesis
    proof (cases x)
      case None
      show ?thesis
        using Cons.IH[of "s1\<lparr>heap := (heap s1)(v := (heap s1 v)\<lparr>valid := False\<rparr>)\<rparr>"] e rb None fr
        by (simp add: False)
    next
      case (Some err)
      then show ?thesis using e rb fr by (simp add: False)
    qed
  qed
qed

lemma clear_stuck:
  assumes i: "inv s" and m: "map_of (ui_nodes s) k = Some r" and n: "node (heap s r) = None"
    and np: "r \<notin> refs s"
  shows "map_of (ui_nodes (fst (clear False s))) k = Some r \<and>
         node (heap (fst (clear False s)) r) = None \<and> r \<notin> refs (fst (clear False s))"
proof -
  have w: "wf s" using i by (simp add: inv_def)
  have mem: "(k, r) \<in> set (ui_nodes s)" using m by (rule map_of_SomeD)
  have t: "snd (clear False s) = Some TypeError" using w mem n by (rule clear_throws)
  obtain s1 x where lp: "clear_nodes_loop (ui_nodes s) False s = (s1, x)"
    by (cases "clear_nodes_loop (ui_nodes s) False s")
  have "x \<noteq> None" using t lp by (cases x) (simp_all add: clear_def Let_def)
  then have "fst (clear False s) = s1" using lp by (auto simp: clear_def)
  moreover have "ui_nodes s1 = ui_nodes s \<and> pending s1 = pending s \<and> node (heap s1 r) = node (heap s r)"
    using clear_nodes_loop_keep[of "ui_nodes s" s r] lp by simp
  ultimately show ?thesis using m n np by (simp add: refs_def)
qed

lemma complete_stuck:
  assumes "map_of (ui_nodes s) k = Some r" "node (heap s r) = None" "r \<notin> refs s"
  shows "map_of (ui_nodes (fst (complete i err inst s))) k = Some r \<and>
         node (heap (fst (complete i err inst s)) r) = None \<and> r \<notin> refs (fst (complete i err inst s))"
proof (cases "i < length (pending s)")
  case True
  let ?r' = "snd (snd (pending s ! i))"
  have "pending s ! i \<in> set (pending s)" using True by simp
  then have "?r' \<in> refs s" unfolding refs_def by (rule imageI)
  then have ne: "?r' \<noteq> r" using assms(3) by auto
  have sub: "set (take i (pending s) @ drop (Suc i) (pending s)) \<subseteq> set (pending s)"
    by (auto dest: in_set_takeD in_set_dropD)
  then have np: "r \<notin> (\<lambda>q. snd (snd q)) ` set (take i (pending s) @ drop (Suc i) (pending s))"
    using assms(3) unfolding refs_def by blast
  show ?thesis
    using True assms(1,2) ne np
    by (cases err) (simp_all add: complete_def load_callback_def Let_def refs_def)
next
  case False
  then show ?thesis using assms by (simp add: complete_def)
qed

lemma step_stuck:
  assumes "inv s" "map_of (ui_nodes s) k = Some r" "node (heap s r) = None" "r \<notin> refs s"
    and "\<not> destructive e"
  shows "map_of (ui_nodes (step e s)) k = Some r \<and> node (heap (step e s) r) = None \<and>
         r \<notin> refs (step e s)"
proof (cases e)
  case (Add config p c)
  then show ?thesis using add_stuck[OF assms(1-4)] by simp
next
  case (Remove path d)
  then show ?thesis using remove_stuck[OF assms(2-4)] assms(5) by simp
next
  case (Clear d)
  then show ?thesis using clear_stuck[OF assms(1-4)] assms(5) by simp
next
  case (Complete i err inst)
  then show ?thesis using complete_stuck[OF assms(2-4)] by simp
qed

lemma exec_stuck:
  assumes "inv s" "map_of (ui_nodes s) k = Some r" "node (heap s r) = None" "r \<notin> refs s"
    and "\<forall>e \<in> set evs. \<not> destructive e"
  shows "map_of (ui_nodes (exec evs s)) k = Some r \<and> node (heap (exec evs s) r) = None"
  using assms
proof (induction evs arbitrary: s)
  case Nil
  then show ?case by (simp add: exec_def)
next
  case (Cons e evs)
  have nd: "\<not> destructive e" using Cons.prems(5) by simp
  note st = step_stuck[OF Cons.prems(1-4) nd]
  have "map_of (ui_nodes (exec evs (step e s))) k = Some r \<and>
        node (heap (exec evs (step e s)) r) = None"
    using st Cons.prems(5) inv_step[OF Cons.prems(1), of e] by (intro Cons.IH) simp_all
  then show ?case by (simp add: exec_def)
qed

lemma complete_error_frame:
  assumes "i < length (pending s)"
  shows "logs (fst (complete i (Some e) inst s)) = logs s @ [LogError e] \<and>
         ui_nodes (fst (complete i (Some e) inst s)) = ui_nodes s \<and>
         ui_cache (fst (complete i (Some e) inst s)) = ui_cache s \<and>
         (\<not> inst \<longrightarrow>
            snd (complete i (Some e) inst s) = Some InstantiateError \<and>
            heap (fst (complete i (Some e) inst s)) = heap s \<and>
            children (fst (complete i (Some e) inst s)) = children s \<and>
            scene (fst (complete i (Some e) inst s)) = scene s)"
  using assms by (simp add: complete_def load_callback_def Let_def)

lemma failed_load_stuck:
  assumes r: "s = exec es (init layerName dflt)" and i: "i < length (pending s)"
    and m: "map_of (ui_nodes s) k = Some (snd (snd (pending s ! i)))"
    and nd: "\<forall>ev \<in> set evs. \<not> destructive ev"
  shows "map_of (ui_nodes (exec evs (fst (complete i (Some e) False s)))) k =
           Some (snd (snd (pending s ! i))) \<and>
         node (heap (exec evs (fst (complete i (Some e) False s))) (snd (snd (pending s ! i)))) = None \<and>
         valid (heap (exec evs (fst (complete i (Some e) False s))) (snd (snd (pending s ! i))))"
proof -
  let ?r = "snd (snd (pending s ! i))"
  let ?s1 = "fst (complete i (Some e) False s)"
  have iv: "inv s" using r by (simp add: inv_reachable)
  then have l: "linked s" by (simp add: inv_def)
  note d = linked_drop_request[OF l i]
  have iv1: "inv ?s1" using inv_step[OF iv, of "Complete i (Some e) False"] by simp
  have f: "ui_nodes ?s1 = ui_nodes s" "heap ?s1 = heap s"
    "pending ?s1 = take i (pending s) @ drop (Suc i) (pending s)"
    using i by (simp_all add: complete_def load_callback_def Let_def)
  have a: "map_of (ui_nodes ?s1) k = Some ?r" using m f by simp
  have b: "node (heap ?s1 ?r) = None" using d f by simp
  have c: "?r \<notin> refs ?s1" using d f by (simp add: refs_def)
  note x = exec_stuck[OF iv1 a b c nd]
  have "inv (exec evs ?s1)" using iv1 by (rule inv_exec)
  then have "linked (exec evs ?s1)" by (simp add: inv_def)
  then have "valid (heap (exec evs ?s1) ?r)" using x by (simp add: linked_def)
  then show ?thesis using x by simp
qed

lemma fast_path_fields:
  assumes "inv s" "map_of (ui_nodes s) (getUuid s (prefab config)) = Some vp" "\<not> valid (heap s vp)"
  shows "\<exists>n. node (heap s vp) = Some n \<and>
           snd (add config p c s) = Inr (getUuid s (prefab config)) \<and>
           pending (fst (add config p c s)) = pending s \<and>
           next_node (fst (add config p c s)) = next_node s \<and>
           ui_nodes (fst (add config p c s)) = ui_nodes s \<and>
           n \<in> set (children (fst (add config p c s))) \<and>
           node (heap (fst (add config p c s)) vp) = Some n \<and>
           valid (heap (fst (add config p c s)) vp)"
proof -
  from add_fast_path[OF assms, of p c] obtain n where
    n: "node (heap s vp) = Some n"
    and a: "add config p c s =
             (set_parent n (s\<lparr>heap := (heap s)(vp := (heap s vp)
                \<lparr>params := nullish p, callbacks := nullish c, valid := True\<rparr>)\<rparr>),
              Inr (getUuid s (prefab config)))"
    by blast
  have "snd (add config p c s) = Inr (getUuid s (prefab config)) \<and>
           pending (fst (add config p c s)) = pending s \<and>
           next_node (fst (add config p c s)) = next_node s \<and>
           ui_nodes (fst (add config p c s)) = ui_nodes s \<and>
           n \<in> set (children (fst (add config p c s))) \<and>
           node (heap (fst (add config p c s)) vp) = Some n \<and>
           valid (heap (fst (add config p c s)) vp)"
    using n by (simp add: a set_parent_def)
  then show ?thesis using n by blast
qed

text \<open>Claim C1, as the code has it: on a fresh layer, after \<open>add\<close> of a path, the
  completed load and \<open>remove\<close> of the path with \<open>isDestroy = false\<close>, \<open>has\<close> of the path
  returns false and \<open>get\<close> returns no node. In any state at all, after such a
  \<open>remove\<close> the path has no node left for \<open>get\<close>, and \<open>has\<close> can only answer true
  through another attached record, one whose identifier is the very string asked for.
  Both queries read \<open>__nodes\<close>, which drops the records that \<open>remove\<close> has marked
  invalid.\<close>

theorem cached_record_not_reported:
  "has (prefab config)
      (exec [Add config p c, Complete 0 None True, Remove (prefab config) False] (init layerName dflt))
     = Inr False \<and>
   get_nodes (prefab config)
      (exec [Add config p c, Complete 0 None True, Remove (prefab config) False] (init layerName dflt))
     = Inr [] \<and>
   get_nodes path (fst (remove_ui path False s)) = Inr [] \<and>
   (has path (fst (remove_ui path False s)) = Inr True \<longrightarrow>
      (\<exists>ch \<in> set (layer_nodes s). \<exists>r. comp_viewParams s ch = Some r \<and>
          uuid (heap s r) = path \<and> prefabPath (heap s r) \<noteq> path))"
proof -
  have a: "has (prefab config)
      (exec [Add config p c, Complete 0 None True, Remove (prefab config) False] (init layerName dflt))
     = Inr False \<and>
   get_nodes (prefab config)
      (exec [Add config p c, Complete 0 None True, Remove (prefab config) False] (init layerName dflt))
     = Inr []"
    by (simp add: run_defs replace_slash_neq)
  have b: "get_nodes path (fst (remove_ui path False s)) = Inr []"
    by (rule after_remove_ui(1)) simp
  have c: "has path (fst (remove_ui path False s)) = Inr True \<longrightarrow>
      (\<exists>ch \<in> set (layer_nodes s). \<exists>r. comp_viewParams s ch = Some r \<and>
          uuid (heap s r) = path \<and> prefabPath (heap s r) \<noteq> path)"
    using after_remove_ui(2)[of False path s] by simp
  show ?thesis using a b c by blast
qed

theorem cached_record_not_reported_witness:
  "has ''L_x'' (fst (remove_ui ''L_x'' False (exec collision_run (init ''L'' ''resources'')))) = Inr True \<and>
   get_nodes ''L_x'' (fst (remove_ui ''L_x'' False (exec collision_run (init ''L'' ''resources'')))) = Inr [] \<and>
   (\<exists>ch \<in> set (layer_nodes (exec collision_run (init ''L'' ''resources''))).
      \<exists>r. comp_viewParams (exec collision_run (init ''L'' ''resources'')) ch = Some r \<and>
          uuid (heap (exec collision_run (init ''L'' ''resources'')) r) = ''L_x'' \<and>
          prefabPath (heap (exec collision_run (init ''L'' ''resources'')) r) \<noteq> ''L_x'')"
proof -
  have h: "has ''L_x'' (fst (remove_ui ''L_x'' False (exec collision_run (init ''L'' ''resources'')))) = Inr True"
    by (simp add: run_defs collision_run_def)
  show ?thesis
    using cached_record_not_reported[of "\<lparr>prefab = ''x'', bundleName = None\<rparr>" None None "''L''" "''resources''"
        "''L_x''" "exec collision_run (init ''L'' ''resources'')"] h
    by blast
qed

text \<open>Claim C5: on a fresh layer, after \<open>add\<close> of a path, the completed load and
  \<open>remove\<close> of the path with \<open>isDestroy = true\<close>, neither \<open>ui_nodes\<close> nor \<open>ui_cache\<close>
  holds an entry, \<open>has\<close> of the path returns false and \<open>get\<close> returns no node. In every
  reachable state the destructive \<open>remove\<close> returns normally, leaves no cache entry for
  the path, deletes from \<open>ui_nodes\<close> the identifier of every valid attached record of the
  path, and leaves no node of the path for \<open>get\<close>; \<open>has\<close> can only answer true through
  another attached record whose identifier is the string asked for.\<close>

theorem destructive_remove_final:
  "ui_nodes (exec [Add config p c, Complete 0 None True, Remove (prefab config) True] (init layerName dflt)) = [] \<and>
   ui_cache (exec [Add config p c, Complete 0 None True, Remove (prefab config) True] (init layerName dflt)) = [] \<and>
   has (prefab config)
      (exec [Add config p c, Complete 0 None True, Remove (prefab config) True] (init layerName dflt))
     = Inr False \<and>
   get_nodes (prefab config)
      (exec [Add config p c, Complete 0 None True, Remove (prefab config) True] (init layerName dflt))
     = Inr [] \<and>
   (s = exec es (init layerName' dflt') \<longrightarrow>
      snd (remove_ui path True s) = None \<and>
      map_of (ui_cache (fst (remove_ui path True s))) path = None \<and>
      (\<forall>ch \<in> set (layer_nodes s). \<forall>r.
          comp_viewParams s ch = Some r \<and> prefabPath (heap s r) = path \<longrightarrow>
          map_of (ui_nodes (fst (remove_ui path True s))) (uuid (heap s r)) = None) \<and>
      get_nodes path (fst (remove_ui path True s)) = Inr [] \<and>
      (has path (fst (remove_ui path True s)) = Inr True \<longrightarrow>
         (\<exists>ch \<in> set (layer_nodes s). \<exists>r. comp_viewParams s ch = Some r \<and>
             uuid (heap s r) = path \<and> prefabPath (heap s r) \<noteq> path)))"
proof -
  have a: "ui_nodes (exec [Add config p c, Complete 0 None True, Remove (prefab config) True] (init layerName dflt)) = [] \<and>
   ui_cache (exec [Add config p c, Complete 0 None True, Remove (prefab config) True] (init layerName dflt)) = [] \<and>
   has (prefab config)
      (exec [Add config p c, Complete 0 None True, Remove (prefab config) True] (init layerName dflt))
     = Inr False \<and>
   get_nodes (prefab config)
      (exec [Add config p c, Complete 0 None True, Remove (prefab config) True] (init layerName dflt))
     = Inr []"
    by (simp add: run_defs replace_slash_neq)
  have b: "snd (remove_ui path True s) = None \<and>
      map_of (ui_cache (fst (remove_ui path True s))) path = None \<and>
      (\<forall>ch \<in> set (layer_nodes s). \<forall>r.
          comp_viewParams s ch = Some r \<and> prefabPath (heap s r) = path \<longrightarrow>
          map_of (ui_nodes (fst (remove_ui path True s))) (uuid (heap s r)) = None) \<and>
      get_nodes path (fst (remove_ui path True s)) = Inr [] \<and>
      (has path (fst (remove_ui path True s)) = Inr True \<longrightarrow>
         (\<exists>ch \<in> set (layer_nodes s). \<exists>r. comp_viewParams s ch = Some r \<and>
             uuid (heap s r) = path \<and> prefabPath (heap s r) \<noteq> path))"
    if r: "s = exec es (init layerName' dflt')"
  proof -
    have l: "linked s" using r inv_reachable[of es layerName' dflt'] by (simp add: inv_def)
    have nt: "True \<longrightarrow> snd (removeCache path s) = None"
      using removeCache_no_throw[OF l] by simp
    have b1: "snd (remove_ui path True s) = None" using l by (rule remove_ui_no_throw)
    have b2: "map_of (ui_cache (fst (remove_ui path True s))) path = None"
      using l by (rule remove_ui_destroy_frame(1))
    have b3: "\<forall>ch \<in> set (layer_nodes s). \<forall>r.
          comp_viewParams s ch = Some r \<and> prefabPath (heap s r) = path \<longrightarrow>
          map_of (ui_nodes (fst (remove_ui path True s))) (uuid (heap s r)) = None"
    proof (intro ballI allI impI, elim conjE)
      fix ch r
      assume "ch \<in> set (layer_nodes s)" "comp_viewParams s ch = Some r"
        "prefabPath (heap s r) = path"
      then show "map_of (ui_nodes (fst (remove_ui path True s))) (uuid (heap s r)) = None"
        by (rule remove_ui_destroy_frame(2)[OF l])
    qed
    have b4: "get_nodes path (fst (remove_ui path True s)) = Inr []"
      using nt by (rule after_remove_ui(1))
    have b5: "has path (fst (remove_ui path True s)) = Inr True \<longrightarrow>
         (\<exists>ch \<in> set (layer_nodes s). \<exists>r. comp_viewParams s ch = Some r \<and>
             uuid (heap s r) = path \<and> prefabPath (heap s r) \<noteq> path)"
      by (rule impI) (rule after_remove_ui(2)[OF nt])
    show ?thesis using b1 b2 b3 b4 b5 by (intro conjI)
  qed
  have b': "s = exec es (init layerName' dflt') \<longrightarrow>
      snd (remove_ui path True s) = None \<and>
      map_of (ui_cache (fst (remove_ui path True s))) path = None \<and>
      (\<forall>ch \<in> set (layer_nodes s). \<forall>r.
          comp_viewParams s ch = Some r \<and> prefabPath (heap s r) = path \<longrightarrow>
          map_of (ui_nodes (fst (remove_ui path True s))) (uuid (heap s r)) = None) \<and>
      get_nodes path (fst (remove_ui path True s)) = Inr [] \<and>
      (has path (fst (remove_ui path True s)) = Inr True \<longrightarrow>
         (\<exists>ch \<in> set (layer_nodes s). \<exists>r. comp_viewParams s ch = Some r \<and>
             uuid (heap s r) = path \<and> prefabPath (heap s r) \<noteq> path))"
    using b by (rule impI)
  show ?thesis
    by (rule conjI[OF a[THEN conjunct1] conjI[OF a[THEN conjunct2, THEN conjunct1]
          conjI[OF a[THEN conjunct2, THEN conjunct2, THEN conjunct1]
            conjI[OF a[THEN conjunct2, THEN conjunct2, THEN conjunct2] b']]]])
qed

theorem destructive_remove_final_witness:
  "snd (remove_ui ''ui/Confirm'' True (exec [Add confirm None None, Complete 0 None True] (init ''Dialog'' ''resources''))) = None \<and>
   0 \<in> set (layer_nodes (exec [Add confirm None None, Complete 0 None True] (init ''Dialog'' ''resources''))) \<and>
   comp_viewParams (exec [Add confirm None None, Complete 0 None True] (init ''Dialog'' ''resources'')) 0 = Some 0 \<and>
   prefabPath (heap (exec [Add confirm None None, Complete 0 None True] (init ''Dialog'' ''resources'')) 0) = ''ui/Confirm'' \<and>
   map_of (ui_nodes (fst (remove_ui ''ui/Confirm'' True (exec [Add confirm None None, Complete 0 None True] (init ''Dialog'' ''resources''))))) ''Dialog_ui_Confirm'' = None \<and>
   map_of (ui_cache (fst (remove_ui ''ui/Confirm'' True (exec [Add confirm None None, Complete 0 None True] (init ''Dialog'' ''resources''))))) ''ui/Confirm'' = None \<and>
   get_nodes ''ui/Confirm'' (fst (remove_ui ''ui/Confirm'' True (exec [Add confirm None None, Complete 0 None True] (init ''Dialog'' ''resources'')))) = Inr []"
proof -
  let ?s = "exec [Add confirm None None, Complete 0 None True] (init ''Dialog'' ''resources'')"
  have v: "0 \<in> set (layer_nodes ?s)" "comp_viewParams ?s 0 = Some 0"
    "prefabPath (heap ?s 0) = ''ui/Confirm''" "uuid (heap ?s 0) = ''Dialog_ui_Confirm''"
    by (simp_all add: run_defs)
  note t = destructive_remove_final[of confirm None None "''Dialog''" "''resources''" ?s
        "[Add confirm None None, Complete 0 None True]" "''Dialog''" "''resources''" "''ui/Confirm''",
        THEN conjunct2, THEN conjunct2, THEN conjunct2, THEN conjunct2, THEN mp, OF refl]
  note t1 = t[THEN conjunct1]
  note t2 = t[THEN conjunct2, THEN conjunct1]
  note t3 = t[THEN conjunct2, THEN conjunct2, THEN conjunct1, THEN bspec, OF v(1), THEN spec, of 0]
  note t4 = t[THEN conjunct2, THEN conjunct2, THEN conjunct2, THEN conjunct1]
  show ?thesis using v t1 t2 t3 t4 by simp
qed

text \<open>Claim C9: in every reachable state where \<open>ui_cache\<close> holds a record for the path,
  the record has its visual, and \<open>remove\<close> with \<open>isDestroy = true\<close> returns normally
  with the entry gone from \<open>ui_cache\<close>, the record's identifier gone from \<open>ui_nodes\<close> and
  the visual detached and destroyed, whatever children are attached; when no valid
  attached child matches the path the call does exactly what \<open>removeCache\<close> does.\<close>

theorem destructive_remove_evicts_cache:
  assumes "s = exec es (init layerName dflt)" and "map_of (ui_cache s) p = Some vp"
  shows "\<exists>n. node (heap s vp) = Some n \<and>
         snd (remove_ui p True s) = None \<and>
         map_of (ui_cache (fst (remove_ui p True s))) p = None \<and>
         map_of (ui_nodes (fst (remove_ui p True s))) (uuid (heap s vp)) = None \<and>
         destroyed (scene (fst (remove_ui p True s)) n) \<and>
         n \<notin> set (children (fst (remove_ui p True s))) \<and>
         ((\<forall>c \<in> set (layer_nodes s). \<forall>r. comp_viewParams s c = Some r \<longrightarrow> prefabPath (heap s r) \<noteq> p)
            \<longrightarrow> remove_ui p True s = removeCache p s)"
proof -
  have "linked s" using assms(1) inv_reachable[of es layerName dflt] by (simp add: inv_def)
  from linked_cached[OF this assms(2)]
  obtain n dc where "node (heap s vp) = Some n" "component (scene s n) = Some dc" by blast
  from remove_evicts[OF assms(2) this] \<open>node (heap s vp) = Some n\<close>
  show ?thesis by blast
qed

theorem destructive_remove_evicts_cache_witness:
  "map_of (ui_cache (exec cached_run (init ''Dialog'' ''resources''))) ''ui/Confirm'' = Some 0 \<and>
   node (heap (exec cached_run (init ''Dialog'' ''resources'')) 0) = Some 0 \<and>
   layer_nodes (exec cached_run (init ''Dialog'' ''resources'')) = [] \<and>
   snd (remove_ui ''ui/Confirm'' True (exec cached_run (init ''Dialog'' ''resources''))) = None \<and>
   map_of (ui_cache (fst (remove_ui ''ui/Confirm'' True (exec cached_run (init ''Dialog'' ''resources''))))) ''ui/Confirm'' = None \<and>
   destroyed (scene (fst (remove_ui ''ui/Confirm'' True (exec cached_run (init ''Dialog'' ''resources'')))) 0)"
proof -
  let ?s = "exec cached_run (init ''Dialog'' ''resources'')"
  have h1: "map_of (ui_cache ?s) ''ui/Confirm'' = Some 0" by (simp add: run_defs)
  have h2: "node (heap ?s 0) = Some 0" by (simp add: run_defs)
  have h4: "layer_nodes ?s = []" by (simp add: run_defs)
  from destructive_remove_evicts_cache[OF refl h1] obtain n where
    n: "node (heap ?s 0) = Some n" "snd (remove_ui ''ui/Confirm'' True ?s) = None"
      "map_of (ui_cache (fst (remove_ui ''ui/Confirm'' True ?s))) ''ui/Confirm'' = None"
      "destroyed (scene (fst (remove_ui ''ui/Confirm'' True ?s)) n)"
    by blast
  then have "n = 0" using h2 by simp
  then show ?thesis using n h1 h2 h4 by simp
qed

text \<open>Claim C7: when a load completes with an error, the callback appends the error to the
  log and touches neither \<open>ui_nodes\<close> nor \<open>ui_cache\<close>; when \<open>instantiate\<close> then throws
  on the missing resource, no record and no node changes either. In a reachable state the
  record of the failed request then stays in \<open>ui_nodes\<close>, valid and without a visual,
  through every later run of calls and completions that has no \<open>remove\<close> and no
  \<open>clear\<close> with \<open>isDestroy = true\<close>.\<close>

theorem failed_load_keeps_record:
  assumes "i < length (pending s)"
  shows "logs (fst (complete i (Some e) inst s)) = logs s @ [LogError e] \<and>
         ui_nodes (fst (complete i (Some e) inst s)) = ui_nodes s \<and>
         ui_cache (fst (complete i (Some e) inst s)) = ui_cache s \<and>
         (\<not> inst \<longrightarrow>
            snd (complete i (Some e) inst s) = Some InstantiateError \<and>
            heap (fst (complete i (Some e) inst s)) = heap s \<and>
            children (fst (complete i (Some e) inst s)) = children s \<and>
            scene (fst (complete i (Some e) inst s)) = scene s) \<and>
         (s = exec es (init layerName dflt) \<and>
          map_of (ui_nodes s) k = Some (snd (snd (pending s ! i))) \<and>
          (\<forall>ev \<in> set evs. \<not> destructive ev) \<longrightarrow>
            map_of (ui_nodes (exec evs (fst (complete i (Some e) False s)))) k =
              Some (snd (snd (pending s ! i))) \<and>
            node (heap (exec evs (fst (complete i (Some e) False s))) (snd (snd (pending s ! i)))) = None \<and>
            valid (heap (exec evs (fst (complete i (Some e) False s))) (snd (snd (pending s ! i)))))"
proof -
  note a = complete_error_frame[OF assms, of e inst]
  have b: "s = exec es (init layerName dflt) \<and>
          map_of (ui_nodes s) k = Some (snd (snd (pending s ! i))) \<and>
          (\<forall>ev \<in> set evs. \<not> destructive ev) \<longrightarrow>
            map_of (ui_nodes (exec evs (fst (complete i (Some e) False s)))) k =
              Some (snd (snd (pending s ! i))) \<and>
            node (heap (exec evs (fst (complete i (Some e) False s))) (snd (snd (pending s ! i)))) = None \<and>
            valid (heap (exec evs (fst (complete i (Some e) False s))) (snd (snd (pending s ! i))))"
  proof (intro impI, elim conjE)
    assume "s = exec es (init layerName dflt)"
      "map_of (ui_nodes s) k = Some (snd (snd (pending s ! i)))"
      "\<forall>ev \<in> set evs. \<not> destructive ev"
    then show "map_of (ui_nodes (exec evs (fst (complete i (Some e) False s)))) k =
              Some (snd (snd (pending s ! i))) \<and>
            node (heap (exec evs (fst (complete i (Some e) False s))) (snd (snd (pending s ! i)))) = None \<and>
            valid (heap (exec evs (fst (complete i (Some e) False s))) (snd (snd (pending s ! i))))"
      using assms by (intro failed_load_stuck)
  qed
  show ?thesis
    by (rule conjI[OF a[THEN conjunct1] conjI[OF a[THEN conjunct2, THEN conjunct1]
          conjI[OF a[THEN conjunct2, THEN conjunct2, THEN conjunct1]
            conjI[OF a[THEN conjunct2, THEN conjunct2, THEN conjunct2] b]]]])
qed

theorem failed_load_keeps_record_witness:
  "0 < length (pending (exec [Add confirm None None] (init ''Dialog'' ''resources''))) \<and>
   map_of (ui_nodes (exec [Add confirm None None] (init ''Dialog'' ''resources''))) ''Dialog_ui_Confirm'' =
     Some (snd (snd (pending (exec [Add confirm None None] (init ''Dialog'' ''resources'')) ! 0))) \<and>
   \<not> destructive (Add confirm None None) \<and> \<not> destructive (Remove ''ui/Confirm'' False) \<and>
   \<not> destructive (Clear False) \<and>
   logs (fst (complete 0 (Some ''not found'') False (exec [Add confirm None None] (init ''Dialog'' ''resources''))))
     = [LogError ''not found''] \<and>
   ui_nodes (fst (complete 0 (Some ''not found'') False (exec [Add confirm None None] (init ''Dialog'' ''resources''))))
     = [(''Dialog_ui_Confirm'', 0)] \<and>
   map_of (ui_nodes (exec [Add confirm None None, Remove ''ui/Confirm'' False, Clear False]
      (fst (complete 0 (Some ''not found'') False (exec [Add confirm None None] (init ''Dialog'' ''resources''))))))
      ''Dialog_ui_Confirm'' = Some 0 \<and>
   node (heap (exec [Add confirm None None, Remove ''ui/Confirm'' False, Clear False]
      (fst (complete 0 (Some ''not found'') False (exec [Add confirm None None] (init ''Dialog'' ''resources''))))) 0)
     = None"
proof -
  let ?s = "exec [Add confirm None None] (init ''Dialog'' ''resources'')"
  let ?evs = "[Add confirm None None, Remove ''ui/Confirm'' False, Clear False]"
  have h: "0 < length (pending ?s)" by (simp add: run_defs)
  have v: "logs ?s = []" "ui_nodes ?s = [(''Dialog_ui_Confirm'', 0)]"
    "snd (snd (pending ?s ! 0)) = 0"
    by (simp_all add: run_defs)
  have m: "map_of (ui_nodes ?s) ''Dialog_ui_Confirm'' = Some (snd (snd (pending ?s ! 0)))"
    using v by simp
  have nd: "\<forall>ev \<in> set ?evs. \<not> destructive ev" by simp
  note t = failed_load_keeps_record[OF h, of "''not found''" False
      "[Add confirm None None]" "''Dialog''" "''resources''" "''Dialog_ui_Confirm''" ?evs]
  note t1 = t[THEN conjunct1]
  note t2 = t[THEN conjunct2, THEN conjunct1]
  note t5 = t[THEN conjunct2, THEN conjunct2, THEN conjunct2, THEN conjunct2, THEN mp,
      OF conjI[OF refl conjI[OF m nd]]]
  show ?thesis using h m nd t1 t2 t5 v by simp
qed

text \<open>Claim C4: on a fresh layer, after \<open>add\<close>, the completed load (which attaches
  node \<open>0\<close>) and a non-destructive \<open>remove\<close>, a second \<open>add\<close> of the path returns the
  identifier, hands no request to the asset provider and instantiates nothing: it attaches
  node \<open>0\<close> again and the record is valid. In every reachable state, \<open>add\<close> on an
  identifier whose record is not valid takes this fast path: the record has a visual,
  which is attached again, no request is issued and the record is valid.\<close>

theorem readd_uses_fast_path:
  "(children (exec [Add config p c, Complete 0 None True] (init layerName dflt)) = [0] \<and>
   children (exec [Add config p c, Complete 0 None True, Remove (prefab config) False] (init layerName dflt)) = [] \<and>
   add (config\<lparr>bundleName := b'\<rparr>) p' c' (exec [Add config p c, Complete 0 None True, Remove (prefab config) False] (init layerName dflt))
     = (exec [Add config p c, Complete 0 None True, Remove (prefab config) False, Add (config\<lparr>bundleName := b'\<rparr>) p' c'] (init layerName dflt),
        Inr (getUuid (init layerName dflt) (prefab config))) \<and>
   pending (exec [Add config p c, Complete 0 None True, Remove (prefab config) False, Add (config\<lparr>bundleName := b'\<rparr>) p' c'] (init layerName dflt)) = [] \<and>
   next_node (exec [Add config p c, Complete 0 None True, Remove (prefab config) False, Add (config\<lparr>bundleName := b'\<rparr>) p' c'] (init layerName dflt)) =
     next_node (exec [Add config p c, Complete 0 None True] (init layerName dflt)) \<and>
   children (exec [Add config p c, Complete 0 None True, Remove (prefab config) False, Add (config\<lparr>bundleName := b'\<rparr>) p' c'] (init layerName dflt)) = [0] \<and>
   valid (heap (exec [Add config p c, Complete 0 None True, Remove (prefab config) False, Add (config\<lparr>bundleName := b'\<rparr>) p' c'] (init layerName dflt)) 0) \<and>
   get_nodes (prefab config) (exec [Add config p c, Complete 0 None True, Remove (prefab config) False, Add (config\<lparr>bundleName := b'\<rparr>) p' c'] (init layerName dflt)) = Inr [0]) \<and>
   (s = exec es (init layerName' dflt') \<and>
    map_of (ui_nodes s) (getUuid s (prefab config'')) = Some vp \<and> \<not> valid (heap s vp) \<longrightarrow>
      (\<exists>n. node (heap s vp) = Some n \<and>
           snd (add config'' p'' c'' s) = Inr (getUuid s (prefab config'')) \<and>
           pending (fst (add config'' p'' c'' s)) = pending s \<and>
           next_node (fst (add config'' p'' c'' s)) = next_node s \<and>
           ui_nodes (fst (add config'' p'' c'' s)) = ui_nodes s \<and>
           n \<in> set (children (fst (add config'' p'' c'' s))) \<and>
           node (heap (fst (add config'' p'' c'' s)) vp) = Some n \<and>
           valid (heap (fst (add config'' p'' c'' s)) vp)))"
  (is "?A \<and> (?R \<longrightarrow> ?B)")
proof -
  have a: "?A" by (simp add: run_defs)
  have b: "?R \<longrightarrow> ?B"
  proof (intro impI, elim conjE)
    assume r: "s = exec es (init layerName' dflt')"
      and m: "map_of (ui_nodes s) (getUuid s (prefab config'')) = Some vp"
      and nv: "\<not> valid (heap s vp)"
    have "inv s" using r by (simp add: inv_reachable)
    then show "?B" using m nv by (rule fast_path_fields)
  qed
  show ?thesis using a b by (rule conjI)
qed

theorem readd_uses_fast_path_witness:
  "map_of (ui_nodes (exec cached_run (init ''Dialog'' ''resources'')))
      (getUuid (exec cached_run (init ''Dialog'' ''resources'')) (prefab confirm)) = Some 0 \<and>
   \<not> valid (heap (exec cached_run (init ''Dialog'' ''resources'')) 0) \<and>
   node (heap (exec cached_run (init ''Dialog'' ''resources'')) 0) = Some 0 \<and>
   pending (exec cached_run (init ''Dialog'' ''resources'')) = [] \<and>
   snd (add confirm None None (exec cached_run (init ''Dialog'' ''resources''))) = Inr ''Dialog_ui_Confirm'' \<and>
   pending (fst (add confirm None None (exec cached_run (init ''Dialog'' ''resources'')))) = [] \<and>
   0 \<in> set (children (fst (add confirm None None (exec cached_run (init ''Dialog'' ''resources''))))) \<and>
   valid (heap (fst (add confirm None None (exec cached_run (init ''Dialog'' ''resources'')))) 0)"
proof -
  let ?s = "exec cached_run (init ''Dialog'' ''resources'')"
  have m: "map_of (ui_nodes ?s) (getUuid ?s (prefab confirm)) = Some 0" by (simp add: run_defs)
  have nv: "\<not> valid (heap ?s 0)" by (simp add: run_defs)
  have v: "node (heap ?s 0) = Some 0" "pending ?s = []"
    "getUuid ?s (prefab confirm) = ''Dialog_ui_Confirm''"
    by (simp_all add: run_defs)
  note t = readd_uses_fast_path[where s = ?s and es = cached_run and layerName' = "''Dialog''"
      and dflt' = "''resources''" and config'' = confirm and vp = 0 and p'' = None and c'' = None,
      THEN conjunct2, THEN mp, OF conjI[OF refl conjI[OF m nv]]]
  then obtain n where n: "node (heap ?s 0) = Some n"
    "snd (add confirm None None ?s) = Inr (getUuid ?s (prefab confirm))"
    "pending (fst (add confirm None None ?s)) = pending ?s"
    "n \<in> set (children (fst (add confirm None None ?s)))"
    "valid (heap (fst (add confirm None None ?s)) 0)"
    by blast
  then have "n = 0" using v(1) by simp
  then show ?thesis using m nv v n by simp
qed

section \<open>The result of \<open>add\<close>\<close>

lemma add_new_record:
  "map_of (ui_nodes s) (getUuid s (prefab config)) = None \<longrightarrow>
      snd (add config p c s) = Inr (getUuid s (prefab config)) \<and>
      pending (fst (add config p c s)) =
        pending s @ [(bundle_or_default (bundleName config) (defaultBundleName s), prefab config, next_ref s)] \<and>
      map_of (ui_nodes (fst (add config p c s))) (getUuid s (prefab config)) = Some (next_ref s) \<and>
      node (heap (fst (add config p c s)) (next_ref s)) = None \<and>
      children (fst (add config p c s)) = children s"
  by (simp add: add_def Let_def load_def update_conv' new_ViewParams_def)

lemma add_result:
  assumes "inv s"
  shows "snd (add config p c s) =
           Inr (if \<exists>vp. map_of (ui_nodes s) (getUuid s (prefab config)) = Some vp \<and> valid (heap s vp)
                then [] else getUuid s (prefab config))"
proof (cases "map_of (ui_nodes s) (getUuid s (prefab config))")
  case None
  then show ?thesis using add_new_record[of s config p c] by simp
next
  case (Some vp)
  show ?thesis
  proof (cases "valid (heap s vp)")
    case True
    then show ?thesis using Some add_duplicate[OF Some True, of p c] by simp
  next
    case False
    from add_fast_path[OF assms Some False, of p c] show ?thesis using Some False by auto
  qed
qed

text \<open>Claim C8: \<open>add\<close> computes the identifier as the layer name joined to the path by
  \<open>_\<close>, every \<open>/\<close> of the joined string rewritten to \<open>_\<close>; the layer \<open>Dialog\<close> and the
  path \<open>ui/Confirm\<close> give \<open>Dialog_ui_Confirm\<close>. When the identifier has no record yet,
  \<open>add\<close> returns it at once, while the request it issued is still outstanding and the
  new record has no visual. In every reachable state \<open>add\<close> returns normally: the
  empty string when the record of the identifier is valid, the identifier otherwise.\<close>

theorem add_returns_identifier:
  "getUuid s path = map (\<lambda>ch. if ch = CHR ''/'' then CHR ''_'' else ch) (name s @ ''_'' @ path) \<and>
   getUuid (init ''Dialog'' dflt) ''ui/Confirm'' = ''Dialog_ui_Confirm'' \<and>
   (map_of (ui_nodes s) (getUuid s (prefab config)) = None \<longrightarrow>
      snd (add config p c s) = Inr (getUuid s (prefab config)) \<and>
      pending (fst (add config p c s)) =
        pending s @ [(bundle_or_default (bundleName config) (defaultBundleName s), prefab config, next_ref s)] \<and>
      map_of (ui_nodes (fst (add config p c s))) (getUuid s (prefab config)) = Some (next_ref s) \<and>
      node (heap (fst (add config p c s)) (next_ref s)) = None \<and>
      children (fst (add config p c s)) = children s) \<and>
   (s = exec es (init layerName dflt') \<longrightarrow>
      snd (add config p c s) =
        Inr (if \<exists>vp. map_of (ui_nodes s) (getUuid s (prefab config)) = Some vp \<and> valid (heap s vp)
             then [] else getUuid s (prefab config)))"
proof -
  have a: "getUuid s path = map (\<lambda>ch. if ch = CHR ''/'' then CHR ''_'' else ch) (name s @ ''_'' @ path)"
    by (simp add: getUuid_def replace_slash_map)
  have b: "getUuid (init ''Dialog'' dflt) ''ui/Confirm'' = ''Dialog_ui_Confirm''"
    by (simp add: getUuid_def init_def)
  note c = add_new_record[of s config p c]
  have d: "s = exec es (init layerName dflt') \<longrightarrow>
      snd (add config p c s) =
        Inr (if \<exists>vp. map_of (ui_nodes s) (getUuid s (prefab config)) = Some vp \<and> valid (heap s vp)
             then [] else getUuid s (prefab config))"
  proof
    assume "s = exec es (init layerName dflt')"
    then have "inv s" by (simp add: inv_reachable)
    then show "snd (add config p c s) =
        Inr (if \<exists>vp. map_of (ui_nodes s) (getUuid s (prefab config)) = Some vp \<and> valid (heap s vp)
             then [] else getUuid s (prefab config))"
      by (rule add_result)
  qed
  show ?thesis by (rule conjI[OF a conjI[OF b conjI[OF c d]]])
qed

theorem add_returns_identifier_witness:
  "map_of (ui_nodes (exec [] (init ''Dialog'' ''resources''))) (getUuid (exec [] (init ''Dialog'' ''resources'')) (prefab confirm)) = None \<and>
   snd (add confirm None None (exec [] (init ''Dialog'' ''resources''))) = Inr ''Dialog_ui_Confirm'' \<and>
   pending (fst (add confirm None None (exec [] (init ''Dialog'' ''resources''))))
     = [(''resources'', ''ui/Confirm'', 0)] \<and>
   node (heap (fst (add confirm None None (exec [] (init ''Dialog'' ''resources'')))) 0) = None"
proof -
  let ?s = "exec [] (init ''Dialog'' ''resources'')"
  have h: "map_of (ui_nodes ?s) (getUuid ?s (prefab confirm)) = None"
    by (simp add: run_defs)
  have v: "getUuid ?s (prefab confirm) = ''Dialog_ui_Confirm''" "pending ?s = []"
    "defaultBundleName ?s = ''resources''" "next_ref ?s = 0" "prefab confirm = ''ui/Confirm''"
    "bundleName confirm = None"
    by (simp_all add: run_defs)
  note t = add_returns_identifier[of ?s "''ui/Confirm''" "''resources''" confirm None None "[]" "''Dialog''" "''resources''"]
  note t3 = t[THEN conjunct2, THEN conjunct2, THEN conjunct1, THEN mp, OF h]
  note t4 = t[THEN conjunct2, THEN conjunct2, THEN conjunct2, THEN mp, OF refl]
  show ?thesis using h v t3 t4 by simp
qed

end
